theory Spec2Isabelle
  imports Main
begin

section \<open>Strings\<close>

text \<open>
  A Go string is modelled as the list of its characters. Every character is taken to be
  a single byte of the ASCII range, where Go's bytes, its runes and the \<open>.\<close> of its
  regular expressions agree; white space is the ASCII white space of
  \<open>strings.TrimSpace\<close>.
\<close>

definition newline :: char where
  "newline = CHR 0x0A"

definition isSpace :: "char \<Rightarrow> bool" where
  "isSpace c = (c = CHR 0x09 \<or> c = CHR 0x0A \<or> c = CHR 0x0B \<or> c = CHR 0x0C
     \<or> c = CHR 0x0D \<or> c = CHR '' '')"

definition TrimSpace :: "string \<Rightarrow> string" where
  "TrimSpace s = rev (dropWhile isSpace (rev (dropWhile isSpace s)))"

definition HasPrefix :: "string \<Rightarrow> string \<Rightarrow> bool" where
  "HasPrefix s p = (take (length p) s = p)"

section \<open>Constants of main.go\<close>

definition includeDirective :: string where
  "includeDirective = ''#include ''"

definition ignoreSyncF :: string where
  "ignoreSyncF = ''.stignore_sync''"

definition ignoreF :: string where
  "ignoreF = ''.stignore''"

section \<open>The regular expression flagsPath\<close>

text \<open>
  \<^verbatim>\<open>^((?:(?:#include )|(?:\(\?.\))*)) *(.+)$\<close> (main.go:60), matched as Go's regexp package does:
  leftmost-first, that is, the match a backtracking engine finds first. Every
  sub-expression lists its matches in the order the engine tries them: an alternation
  its left branch first, a greedy star its longest run first.
\<close>

text \<open>\<^verbatim>\<open>(?:\(\?.\))*\<close>: the flag groups matched and the rest of the line; \<open>.\<close> is any
  character but the newline.\<close>

fun flagGroups :: "string \<Rightarrow> (string \<times> string) list" where
  "flagGroups (a # b # c # d # s) =
     (if a = CHR ''('' \<and> b = CHR ''?'' \<and> c \<noteq> newline \<and> d = CHR '')''
      then map (\<lambda>(g, r). (a # b # c # d # g, r)) (flagGroups s) else [])
     @ [([], a # b # c # d # s)]"
| "flagGroups s = [([], s)]"

text \<open>The first group: the include token, or else the flag groups.\<close>

definition group1 :: "string \<Rightarrow> (string \<times> string) list" where
  "group1 s =
     (if HasPrefix s includeDirective
      then [(includeDirective, drop (length includeDirective) s)] else [])
     @ flagGroups s"

text \<open>\<^verbatim>\<open> *\<close>: what is left of the line after the spaces matched.\<close>

fun spaces :: "string \<Rightarrow> string list" where
  "spaces [] = [[]]"
| "spaces (c # s) = (if c = CHR '' '' then spaces s else []) @ [c # s]"

text \<open>\<^verbatim>\<open>(.+)$\<close>: the rest of the line, not empty and with no newline.\<close>

definition dotPlusEnd :: "string \<Rightarrow> bool" where
  "dotPlusEnd s = (s \<noteq> [] \<and> newline \<notin> set s)"

definition candidates :: "string \<Rightarrow> (string \<times> string) list" where
  "candidates s = concat (map (\<lambda>(m1, r). map (Pair m1) (spaces r)) (group1 s))"

text \<open>\<open>flagsPath.FindStringSubmatch\<close>: \<open>None\<close> is Go's \<open>nil\<close>, \<open>Some (m1, m2)\<close> the two
  captures \<open>m[1]\<close> and \<open>m[2]\<close>.\<close>

definition FindStringSubmatch :: "string \<Rightarrow> (string \<times> string) option" where
  "FindStringSubmatch s =
     (case filter (\<lambda>(m1, m2). dotPlusEnd m2) (candidates s) of
        [] \<Rightarrow> None
      | m # _ \<Rightarrow> Some m)"

section \<open>Paths (package path/filepath, on Unix)\<close>

text \<open>\<open>strings.Split(path, "/")\<close>: the elements of a path, the empty ones included.\<close>

fun split_sep :: "string \<Rightarrow> string list" where
  "split_sep [] = [[]]"
| "split_sep (c # s) =
     (if c = CHR ''/'' then [] # split_sep s
      else (case split_sep s of [] \<Rightarrow> [[c]] | e # es \<Rightarrow> (c # e) # es))"

text \<open>\<open>strings.Join(elems, "/")\<close>.\<close>

fun join_sep :: "string list \<Rightarrow> string" where
  "join_sep [] = []"
| "join_sep [e] = e"
| "join_sep (e # es) = e @ CHR ''/'' # join_sep es"

text \<open>
  The loop of \<open>filepath.Clean\<close> over the elements of the path. \<open>out\<close> holds the elements
  written so far, the last one first. An empty element and \<open>.\<close> are dropped; \<open>..\<close>
  removes the element before it, unless there is none or it is a \<open>..\<close> itself: then a
  rooted path drops the \<open>..\<close> and another path keeps it.
\<close>

fun clean_elems :: "bool \<Rightarrow> string list \<Rightarrow> string list \<Rightarrow> string list" where
  "clean_elems rooted out [] = rev out"
| "clean_elems rooted out (e # es) =
     (if e = [] \<or> e = ''.'' then clean_elems rooted out es
      else if e = ''..'' then
        (case out of
           [] \<Rightarrow> if rooted then clean_elems rooted out es
                 else clean_elems rooted (e # out) es
         | t # ts \<Rightarrow> if t = ''..'' then clean_elems rooted (e # out) es
                     else clean_elems rooted ts es)
      else clean_elems rooted (e # out) es)"

definition Clean :: "string \<Rightarrow> string" where
  "Clean path =
     (if path = [] then ''.''
      else let rooted = (hd path = CHR ''/'');
               out = (if rooted then ''/'' else []) @
                     join_sep (clean_elems rooted [] (split_sep path))
           in if out = [] then ''.'' else out)"

text \<open>\<open>filepath.Join\<close>: the elements from the first non-empty one on, joined by the
  separator and cleaned; the empty string when every element is empty.\<close>

fun Join :: "string list \<Rightarrow> string" where
  "Join [] = []"
| "Join (e # es) = (if e = [] then Join es else Clean (join_sep (e # es)))"

text \<open>\<open>filepath.Dir\<close>: all but the last element of the path, cleaned.\<close>

definition Dir :: "string \<Rightarrow> string" where
  "Dir path = Clean (rev (dropWhile (\<lambda>c. c \<noteq> CHR ''/'') (rev path)))"

text \<open>\<open>filepath.Abs\<close> of a path, in working directory \<open>wd\<close> (\<open>None\<close> when \<open>os.Getwd\<close>
  fails): an absolute path is cleaned, another one is joined to the working directory.\<close>

definition Abs :: "string option \<Rightarrow> string \<Rightarrow> string option" where
  "Abs wd path =
     (if HasPrefix path ''/'' then Some (Clean path)
      else (case wd of None \<Rightarrow> None | Some d \<Rightarrow> Some (Join [d, path])))"

subsection \<open>The length of a cleaned path\<close>

text \<open>The length of the elements of a path, each with a separator.\<close>

definition elems_len :: "string list \<Rightarrow> nat" where
  "elems_len es = sum_list (map (\<lambda>e. Suc (length e)) es)"

lemma split_sep_not_Nil: "split_sep s \<noteq> []"
  by (induction s) (auto split: list.splits)

lemma elems_len_split_sep: "elems_len (split_sep s) = Suc (length s)"
  by (induction s) (auto simp: elems_len_def split_sep_not_Nil split: list.splits)

lemma length_join_sep: "es \<noteq> [] \<Longrightarrow> Suc (length (join_sep es)) = elems_len es"
  by (induction es rule: join_sep.induct) (auto simp: elems_len_def)

lemma elems_len_rev: "elems_len (rev es) = elems_len es"
  by (induction es) (auto simp: elems_len_def)

lemma elems_len_Nil: "elems_len [] = 0"
  by (simp add: elems_len_def)

lemma elems_len_Cons: "elems_len (e # es) = Suc (length e) + elems_len es"
  by (simp add: elems_len_def)

lemma elems_len_clean_elems:
  "elems_len (clean_elems r out es) \<le> elems_len out + elems_len es"
  by (induction r out es rule: clean_elems.induct)
     (auto simp: elems_len_rev elems_len_Cons split: list.splits)

lemma length_join_sep_le: "length (join_sep es) \<le> elems_len es - 1"
  by (cases "es = []") (use length_join_sep[of es] in \<open>auto simp: elems_len_def\<close>)

lemma length_Clean_le:
  assumes "p \<noteq> []"
  shows "length (Clean p) \<le> length p"
proof (cases "hd p = CHR ''/''")
  case True
  with assms obtain q where p: "p = CHR ''/'' # q" by (cases p) auto
  let ?ces = "clean_elems True [] (split_sep q)"
  have ces: "clean_elems True [] (split_sep p) = ?ces" by (simp add: p)
  have "elems_len ?ces \<le> Suc (length q)"
    using elems_len_clean_elems[of True "[]" "split_sep q"]
    by (simp add: elems_len_split_sep elems_len_Nil)
  then have "length (join_sep ?ces) \<le> length q"
    using length_join_sep_le[of ?ces] by simp
  moreover have "Clean p = CHR ''/'' # join_sep ?ces"
    using ces by (simp add: Clean_def p)
  ultimately show ?thesis by (simp add: p)
next
  case False
  let ?ces = "clean_elems False [] (split_sep p)"
  have "elems_len ?ces \<le> Suc (length p)"
    using elems_len_clean_elems[of False "[]" "split_sep p"]
    by (simp add: elems_len_split_sep elems_len_Nil)
  then have le: "length (join_sep ?ces) \<le> length p"
    using length_join_sep_le[of ?ces] by simp
  have "Clean p = (if join_sep ?ces = [] then ''.'' else join_sep ?ces)"
    using assms False by (simp add: Clean_def)
  then show ?thesis using le assms by (cases p) (auto simp: Suc_le_eq)
qed

lemma split_sep_snoc_sep: "split_sep (s @ ''/'') = split_sep s @ [[]]"
  by (induction s) (auto simp: split_sep_not_Nil split: list.splits)

lemma clean_elems_snoc_empty: "clean_elems r out (es @ [[]]) = clean_elems r out es"
  by (induction r out es rule: clean_elems.induct) (auto split: list.splits)

lemma Clean_snoc_sep: "s \<noteq> [] \<Longrightarrow> Clean (s @ ''/'') = Clean s"
  by (simp add: Clean_def split_sep_snoc_sep clean_elems_snoc_empty)

lemma Dir_cases: "Dir p = ''.'' \<or> Dir p = ''/'' \<or> length (Dir p) < length p"
proof -
  let ?z = "dropWhile (\<lambda>c. c \<noteq> CHR ''/'') (rev p)"
  show ?thesis
  proof (cases ?z)
    case Nil
    then show ?thesis by (simp add: Dir_def Clean_def)
  next
    case (Cons c z')
    then have "c = CHR ''/''" using hd_dropWhile[of "\<lambda>c. c \<noteq> CHR ''/''" "rev p"] by auto
    with Cons have z: "?z = CHR ''/'' # z'" by simp
    have len: "Suc (length z') \<le> length p"
      using length_dropWhile_le[of "\<lambda>c. c \<noteq> CHR ''/''" "rev p"] z by simp
    have D: "Dir p = Clean (rev z' @ ''/'')" by (simp add: Dir_def z)
    show ?thesis
    proof (cases "z' = []")
      case True
      then have "Dir p = ''/''" using D by (simp add: Clean_def)
      then show ?thesis by simp
    next
      case False
      then have "Dir p = Clean (rev z')" using D by (simp add: Clean_snoc_sep)
      moreover have "length (Clean (rev z')) \<le> length (rev z')"
        using False by (intro length_Clean_le) simp
      ultimately show ?thesis using len by simp
    qed
  qed
qed

section \<open>Files\<close>

text \<open>
  The file system maps a path to what \<open>os.Stat\<close> finds there: nothing, a regular file
  with its content, or a directory. Opening a directory for writing fails; no other
  failure of the operating system (permissions, a full disk) is modelled, so seeking,
  reading and writing an open file succeed.
\<close>

datatype node = File string | Directory

type_synonym filesystem = "string \<Rightarrow> node option"

datatype error =
    PathError string
  | FileError string error
  | PromptFailed
  | NotInsideSyncthingFolder
  | IncorrectPattern string
  | Critical

text \<open>The message of an error, \<open>err.Error()\<close>.\<close>

fun Error :: "error \<Rightarrow> string" where
  "Error (PathError p) = ''open '' @ p @ '': is a directory''"
| "Error (FileError p e) = ''file '' @ [CHR 0x22] @ p @ [CHR 0x22] @ '': '' @ Error e"
| "Error PromptFailed = ''prompt failed: read error''"
| "Error NotInsideSyncthingFolder = ''current working dir is not inside of syncthing folder''"
| "Error (IncorrectPattern p) = ''incorrect pattern: '' @ [CHR 0x22] @ p @ [CHR 0x22]"
| "Error Critical = ''critical: runtime error: slice bounds out of range''"

text \<open>An open \<open>*os.File\<close>: the path it was opened at and its offset.\<close>

record osfile =
  fname :: string
  offset :: nat

definition content :: "filesystem \<Rightarrow> osfile \<Rightarrow> string" where
  "content fs f = (case fs (fname f) of Some (File c) \<Rightarrow> c | _ \<Rightarrow> [])"

text \<open>\<open>os.OpenFile(path, os.O_RDWR|os.O_CREATE, 0o644)\<close>: a missing file is created
  empty.\<close>

definition OpenFile :: "filesystem \<Rightarrow> string \<Rightarrow> error + filesystem \<times> osfile" where
  "OpenFile fs p =
     (case fs p of
        Some Directory \<Rightarrow> Inl (PathError p)
      | Some (File c) \<Rightarrow> Inr (fs, \<lparr>fname = p, offset = 0\<rparr>)
      | None \<Rightarrow> Inr (fs(p \<mapsto> File []), \<lparr>fname = p, offset = 0\<rparr>))"

text \<open>\<open>f.Write\<close>: the bytes go to the file's offset (the file is not opened with
  \<open>O_APPEND\<close>) and the offset moves past them. The offset is never beyond the end of
  the file here, so no hole is written.\<close>

definition Write :: "filesystem \<Rightarrow> osfile \<Rightarrow> string \<Rightarrow> filesystem \<times> osfile" where
  "Write fs f data =
     (let c = content fs f
      in (fs(fname f \<mapsto> File (take (offset f) c @ data @ drop (offset f + length data) c)),
          f\<lparr>offset := offset f + length data\<rparr>))"

text \<open>\<open>EndsWithNewLine\<close> (main.go:48-58) reads the last byte of the file and restores the offset. On an
  empty file the seek to \<open>-1\<close> fails, nothing is read and the buffer keeps its zero.\<close>

definition EndsWithNewLine :: "filesystem \<Rightarrow> osfile \<Rightarrow> bool" where
  "EndsWithNewLine fs f = (let c = content fs f in c \<noteq> [] \<and> last c = newline)"

text \<open>\<open>Append\<close> (main.go:15-31): seek to the end, then write through the buffered writer a newline if
  the file does not end with one, every string of \<open>toAppend\<close>, and a newline.\<close>

definition Append :: "filesystem \<Rightarrow> osfile \<Rightarrow> string list \<Rightarrow> filesystem" where
  "Append fs f toAppend =
     (let f1 = f\<lparr>offset := length (content fs f)\<rparr>;
          bw = (if \<not> EndsWithNewLine fs f1 then [newline] else [])
               @ concat toAppend @ [newline]
      in fst (Write fs f1 bw))"

text \<open>\<open>OpenAndAppend\<close> (main.go:33-46); an error is wrapped with the path of the file.\<close>

definition OpenAndAppend :: "filesystem \<Rightarrow> string \<Rightarrow> string list \<Rightarrow> error option \<times> filesystem" where
  "OpenAndAppend fs p toAppend =
     (case OpenFile fs p of
        Inl e \<Rightarrow> (Some (FileError p e), fs)
      | Inr (fs1, f) \<Rightarrow> (None, Append fs1 f toAppend))"

section \<open>Reading lines\<close>

text \<open>
  \<open>ReadString('\n')\<close> of a \<open>bufio.Reader\<close> over the input \<open>s\<close>: the line read (with its
  newline), the input left, and whether the input ended before a newline (then Go
  returns what is left of the input together with an error).
\<close>

definition ReadString :: "string \<Rightarrow> string \<times> string \<times> bool" where
  "ReadString s =
     (case dropWhile (\<lambda>c. c \<noteq> newline) s of
        [] \<Rightarrow> (s, [], True)
      | _ # rest \<Rightarrow> (takeWhile (\<lambda>c. c \<noteq> newline) s @ [newline], rest, False))"

lemma ReadString_shorter:
  assumes "ReadString inp = (l, rest, False)"
  shows "length rest < length inp"
proof -
  from assms obtain x where "dropWhile (\<lambda>c. c \<noteq> newline) inp = x # rest"
    by (auto simp: ReadString_def split: list.splits)
  then have "Suc (length rest) = length (dropWhile (\<lambda>c. c \<noteq> newline) inp)" by simp
  also have "\<dots> \<le> length inp" by (rule length_dropWhile_le)
  finally show ?thesis by simp
qed

lemma ReadString_end: "ReadString inp = (l, rest, True) \<Longrightarrow> l = inp \<and> rest = []"
  by (auto simp: ReadString_def split: list.splits)

lemma length_TrimSpace_le: "length (TrimSpace s) \<le> length s"
proof -
  have "length (dropWhile isSpace (rev (dropWhile isSpace s)))
          \<le> length (rev (dropWhile isSpace s))"
    by (rule length_dropWhile_le)
  also have "\<dots> \<le> length s" by (simp add: length_dropWhile_le)
  finally show ?thesis by (simp add: TrimSpace_def)
qed

lemma ReadString_consumes:
  assumes "ReadString inp = (l, rest, e)" and "1 < length (TrimSpace l)"
  shows "length rest < length inp"
proof (cases e)
  case True
  with assms(1) have "l = inp" "rest = []" by (auto dest: ReadString_end)
  moreover have "length (TrimSpace l) \<le> length l" by (rule length_TrimSpace_le)
  ultimately have "rest = []" and "0 < length inp" using assms(2) by auto
  then show ?thesis by simp
next
  case False
  with assms(1) show ?thesis by (auto dest: ReadString_shorter)
qed

text \<open>Standard input: its bytes, and whether it breaks with a read error at their end
  (otherwise it ends with \<open>io.EOF\<close>).\<close>

record console =
  input :: string
  broken :: bool

section \<open>Prompt\<close>

text \<open>The loop of \<open>Prompt\<close> (main.go:68-95); \<open>out\<close> collects what it prints. A read error
  other than \<open>io.EOF\<close> ends it with an error; at the end of the input the text read so
  far is the answer.\<close>

function Prompt_loop :: "bool \<Rightarrow> bool \<Rightarrow> string \<Rightarrow> string list \<Rightarrow> (error + bool) \<times> string list" where
  "Prompt_loop brk first inp out =
     (case ReadString inp of (line, rest, err) \<Rightarrow>
        (let out1 = out @ [if first
               then ignoreSyncF @ '' exists, but not included in '' @ ignoreF @ ''. Include it ([Y]/n)? ''
               else ''Wrong input. ([Y]/n): ''];
             txt = TrimSpace line
         in if err \<and> brk then (Inl PromptFailed, out1)
            else if length txt \<le> 1 then (Inr True, out1)
            else if hd txt = CHR ''y'' \<or> hd txt = CHR ''Y'' then (Inr True, out1)
            else if hd txt = CHR ''n'' \<or> hd txt = CHR ''N'' then (Inr False, out1)
            else Prompt_loop brk False rest out1))"
  by pat_completeness auto
termination Prompt_loop
proof (relation "measure (\<lambda>(brk, first, inp, out). length inp)", goal_cases)
  case 1
  show ?case by simp
next
  case (2 brk first inp out x y xa ya xb xc)
  then have "ReadString inp = (x, xa, ya)" and "1 < length (TrimSpace x)" by auto
  then have "length xa < length inp" by (rule ReadString_consumes)
  then show ?case by simp
qed

declare Prompt_loop.simps [simp del]

definition Prompt :: "console \<Rightarrow> (error + bool) \<times> string list" where
  "Prompt con = Prompt_loop (broken con) True (input con) []"

section \<open>WriteToSynced\<close>

text \<open>The scan of the primary file for the inclusion directive (the first loop of
  \<open>WriteToSynced\<close>, main.go:109-123), over what the reader has left to read: the value
  of \<open>isIncluded\<close> when the loop ends. The last line is scanned also when no newline
  ends it.\<close>

function scan_lines :: "string \<Rightarrow> bool" where
  "scan_lines inp =
     (case ReadString inp of (l, rest, err) \<Rightarrow>
        (let line = TrimSpace l
         in if HasPrefix line ''//'' then (if err then False else scan_lines rest)
            else (case FindStringSubmatch line of
                    None \<Rightarrow> (if err then False else scan_lines rest)
                  | Some (m1, m2) \<Rightarrow>
                      if m1 = includeDirective \<and> m2 = ignoreSyncF then True
                      else if err then False else scan_lines rest)))"
  by pat_completeness auto
termination scan_lines
  by (relation "measure length") (auto dest: ReadString_shorter[OF sym])

declare scan_lines.simps [simp del]

text \<open>
  \<open>WriteToSynced\<close> (main.go:97-152), with \<open>args.Patterns\<close> as the parameter \<open>patterns\<close>. When the scan does
  not find the directive the reader has read the primary file to its end, and that is
  where the file's offset stands when the directive is written.
\<close>

definition WriteToSynced ::
  "filesystem \<Rightarrow> console \<Rightarrow> string list \<Rightarrow> string \<Rightarrow> bool \<Rightarrow> error option \<times> filesystem" where
  "WriteToSynced fs con patterns stDir shouldPrompt =
     (let p = Join [stDir, ignoreF]
      in case OpenFile fs p of
           Inl e \<Rightarrow> (Some (FileError p e), fs)
         | Inr (fs1, f0) \<Rightarrow>
             (let isIncluded = scan_lines (content fs1 f0);
                  f = f0\<lparr>offset := length (content fs1 f0)\<rparr>
              in case (if \<not> isIncluded \<and> shouldPrompt then fst (Prompt con) else Inr False) of
                   Inl e \<Rightarrow> (Some e, fs1)
                 | Inr prompt \<Rightarrow>
                     if isIncluded \<or> \<not> shouldPrompt \<or> prompt then
                       (case OpenAndAppend fs1 (Join [stDir, ignoreSyncF]) patterns of
                          (Some e, fs2) \<Rightarrow> (Some e, fs2)
                        | (None, fs2) \<Rightarrow>
                            if \<not> isIncluded then
                              (if EndsWithNewLine fs2 f
                               then (None, fst (Write fs2 f
                                      (includeDirective @ ignoreSyncF @ [newline])))
                               else (None, fst (Write fs2 f
                                      ([newline] @ includeDirective @ ignoreSyncF @ [newline]))))
                            else (None, fs2))
                     else (None, Append fs1 f patterns)))"

section \<open>FindParentSyncthingDir\<close>

text \<open>The upward walk (main.go:166-174): the value of \<open>cur\<close> when the loop ends.\<close>

function walk :: "filesystem \<Rightarrow> string \<Rightarrow> string" where
  "walk fs cur =
     (if cur \<noteq> ''.'' \<and> cur \<noteq> ''/'' then
        (case fs (Join [cur, ''.stfolder'']) of
           Some Directory \<Rightarrow> cur
         | _ \<Rightarrow> walk fs (Dir cur))
      else cur)"
  by pat_completeness auto
termination walk
proof (relation "measure (\<lambda>(fs, cur). if cur = ''.'' \<or> cur = ''/'' then 0 else Suc (length cur))",
    goal_cases)
  case 1
  show ?case by simp
next
  case (2 fs cur)
  then show ?case using Dir_cases[of cur] by auto
next
  case (3 fs cur x2 x1)
  then show ?case using Dir_cases[of cur] by auto
qed

declare walk.simps [simp del]

text \<open>\<open>s[n:]\<close>, which panics when \<open>n\<close> is beyond the end of \<open>s\<close>.\<close>

definition slice_from :: "string \<Rightarrow> nat \<Rightarrow> string option" where
  "slice_from s n = (if n \<le> length s then Some (drop n s) else None)"

text \<open>\<open>FindParentSyncthingDir\<close> (main.go:154-179), in a process whose \<open>os.Getwd\<close> gives \<open>wd\<close> (\<open>None\<close> when
  it fails). The result \<open>None\<close> is the panic of the slice expression.\<close>

definition FindParentSyncthingDir :: "filesystem \<Rightarrow> string option \<Rightarrow> (string \<times> string) option" where
  "FindParentSyncthingDir fs wd =
     (case wd of
        None \<Rightarrow> Some ([], [])
      | Some cwd0 \<Rightarrow>
          (case Abs wd cwd0 of
             None \<Rightarrow> Some ([], [])
           | Some cwd \<Rightarrow>
               (let cur = walk fs cwd
                in if cur = ''.'' \<or> cur = ''/'' then Some ([], [])
                   else map_option (Pair cur) (slice_from cwd (length cur)))))"

section \<open>do\<close>

record argsS =
  Local :: bool
  Synced :: bool
  Absolute :: bool
  Patterns :: "string list"

text \<open>The body of the loop over \<open>args.Patterns\<close> (main.go:196-210): the new value of one
  pattern, or the error the loop returns with.\<close>

definition rewrite_pattern :: "string \<Rightarrow> string \<Rightarrow> error + string" where
  "rewrite_pattern relPath pat =
     (let p = TrimSpace pat
      in if HasPrefix p ''//'' then Inr p
         else (case FindStringSubmatch p of
                 None \<Rightarrow> Inl (IncorrectPattern p)
               | Some (m1, m2) \<Rightarrow>
                   if m2 = [] then Inr p else Inr (m1 @ Join [relPath, m2])))"

fun rewrite_patterns :: "string \<Rightarrow> string list \<Rightarrow> error + string list" where
  "rewrite_patterns relPath [] = Inr []"
| "rewrite_patterns relPath (pat # pats) =
     (case rewrite_pattern relPath pat of
        Inl e \<Rightarrow> Inl e
      | Inr p \<Rightarrow>
          (case rewrite_patterns relPath pats of
             Inl e \<Rightarrow> Inl e
           | Inr ps \<Rightarrow> Inr (p # ps)))"

text \<open>The classification of a caller's pattern fails: the loop reaches \<open>flagsPath\<close> with
  the trimmed pattern, which is not a comment, and \<open>flagsPath\<close> does not match it.\<close>

definition unmatched :: "string \<Rightarrow> bool" where
  "unmatched pat =
     (let p = TrimSpace pat
      in \<not> HasPrefix p ''//'' \<and> FindStringSubmatch p = None)"

text \<open>\<open>os.Stat(path)\<close> succeeds and \<open>!stat.IsDir()\<close>.\<close>

definition is_regular :: "filesystem \<Rightarrow> string \<Rightarrow> bool" where
  "is_regular fs p = (case fs p of Some (File c) \<Rightarrow> True | _ \<Rightarrow> False)"

text \<open>\<open>do\<close> (main.go:181-230): the directory or the error it returns, and the file system
  it leaves. The error \<open>Critical\<close> is that of the recovered panic.\<close>

definition do :: "filesystem \<Rightarrow> string option \<Rightarrow> console \<Rightarrow> argsS \<Rightarrow> (error + string) \<times> filesystem" where
  "do fs wd con args =
     (case FindParentSyncthingDir fs wd of
        None \<Rightarrow> (Inl Critical, fs)
      | Some (stDir, relPath) \<Rightarrow>
          if stDir = [] then (Inl NotInsideSyncthingFolder, fs)
          else
            (case (if \<not> Absolute args then rewrite_patterns relPath (Patterns args)
                   else Inr (Patterns args)) of
               Inl e \<Rightarrow> (Inl e, fs)
             | Inr patterns \<Rightarrow>
                 (case (if \<not> (Local args \<or> Synced args) then
                          (if is_regular fs (Join [stDir, ignoreSyncF])
                           then (args\<lparr>Synced := True\<rparr>, True)
                           else (args\<lparr>Local := True\<rparr>, False))
                        else (args, False)) of
                    (args1, shouldPromptIfMissing) \<Rightarrow>
                      if Synced args1 then
                        (case WriteToSynced fs con patterns stDir shouldPromptIfMissing of
                           (Some e, fs') \<Rightarrow> (Inl e, fs')
                         | (None, fs') \<Rightarrow> (Inr stDir, fs'))
                      else if Local args1 then
                        (case OpenAndAppend fs (Join [stDir, ignoreF]) patterns of
                           (Some e, fs') \<Rightarrow> (Inl e, fs')
                         | (None, fs') \<Rightarrow> (Inr stDir, fs'))
                      else (Inr stDir, fs))))"

section \<open>Clean absolute paths and the marker\<close>

text \<open>
  A clean absolute path is the root followed by elements that are not empty, not \<open>.\<close> or
  \<open>..\<close>, and hold no separator; \<open>abs_path []\<close> is the root \<open>/\<close> itself. The ancestors of
  \<open>abs_path es\<close> are the paths \<open>abs_path (take k es)\<close>. A directory has the marker when its
  entry \<open>.stfolder\<close> is a directory.
\<close>

definition valid_elem :: "string \<Rightarrow> bool" where
  "valid_elem e = (e \<noteq> [] \<and> e \<noteq> ''.'' \<and> e \<noteq> ''..'' \<and> CHR ''/'' \<notin> set e)"

definition abs_path :: "string list \<Rightarrow> string" where
  "abs_path es = CHR ''/'' # join_sep es"

definition has_marker :: "filesystem \<Rightarrow> string \<Rightarrow> bool" where
  "has_marker fs d = (fs (d @ ''/.stfolder'') = Some Directory)"

text \<open>The offset of a working directory below one of its ancestors: each of the
  remaining elements with a separator before it.\<close>

definition offset_of :: "string list \<Rightarrow> string" where
  "offset_of ds = concat (map (\<lambda>e. CHR ''/'' # e) ds)"

text \<open>The last element of a path: what follows its last separator.\<close>

definition last_elem :: "string \<Rightarrow> string" where
  "last_elem p = rev (takeWhile (\<lambda>c. c \<noteq> CHR ''/'') (rev p))"

section \<open>What the operations leave in the files\<close>

text \<open>The content of the regular file at a path (empty when there is none), and the
  content \<open>Append\<close> leaves in a file of content \<open>c\<close>: \<open>c\<close>, a newline unless \<open>c\<close> ends with
  one, the strings of \<open>toAppend\<close> one after the other, and a newline.\<close>

definition file_content :: "filesystem \<Rightarrow> string \<Rightarrow> string" where
  "file_content fs p = (case fs p of Some (File c) \<Rightarrow> c | _ \<Rightarrow> [])"

definition ends_with_newline :: "string \<Rightarrow> bool" where
  "ends_with_newline c = (c \<noteq> [] \<and> last c = newline)"

definition appended :: "string \<Rightarrow> string list \<Rightarrow> string" where
  "appended c toAppend =
     c @ (if ends_with_newline c then [] else [newline]) @ concat toAppend @ [newline]"

text \<open>The content \<open>WriteToSynced\<close> leaves in a primary file of content \<open>c\<close> when it
  writes the inclusion directive.\<close>

definition with_directive :: "string \<Rightarrow> string" where
  "with_directive c =
     c @ (if ends_with_newline c then [] else [newline]) @ ''#include .stignore_sync'' @ [newline]"

section \<open>Example worlds\<close>

text \<open>A file system in which \<open>/root\<close> is a synchronized folder that holds no ignore file
  yet, and a standard input that is at its end.\<close>

definition fs_root :: filesystem where
  "fs_root p = (if p = ''/root/.stfolder'' then Some Directory else None)"

definition no_input :: console where
  "no_input = \<lparr>input = [], broken = False\<rparr>"

text \<open>A file system with two synchronized folders, one inside the other: \<open>/a\<close> and
  \<open>/a/b/c\<close> hold the marker directory, and \<open>/a/b\<close> holds a regular file named
  \<open>.stfolder\<close>. The root directory holds a directory \<open>.stfolder\<close> as well.\<close>

definition fs_nested :: filesystem where
  "fs_nested p =
     (if p = ''/a/.stfolder'' \<or> p = ''/a/b/c/.stfolder'' \<or> p = ''/.stfolder''
      then Some Directory
      else if p = ''/a/b/.stfolder'' then Some (File [])
      else None)"

text \<open>The folder \<open>/root\<close> with both ignore files, the primary one not including the
  secondary one; with a primary file that includes a secondary file that does not
  exist; and with a primary file that includes the secondary file.\<close>

definition fs_unlinked :: filesystem where
  "fs_unlinked p =
     (if p = ''/root/.stfolder'' then Some Directory
      else if p = ''/root/.stignore'' then Some (File (''*.bak'' @ [newline]))
      else if p = ''/root/.stignore_sync'' then Some (File (''*.tmp'' @ [newline]))
      else None)"

definition fs_linked_alone :: filesystem where
  "fs_linked_alone p =
     (if p = ''/root/.stfolder'' then Some Directory
      else if p = ''/root/.stignore'' then Some (File (''#include .stignore_sync'' @ [newline]))
      else None)"

definition fs_linked :: filesystem where
  "fs_linked p =
     (if p = ''/root/.stignore_sync'' then Some (File (''*.tmp'' @ [newline]))
      else fs_linked_alone p)"

section \<open>What flagsPath matches\<close>

lemma flagGroups_split:
  "(g, r) \<in> set (flagGroups s) \<Longrightarrow> s = g @ r \<and> newline \<notin> set g"
  by (induction s arbitrary: g r rule: flagGroups.induct) (auto simp: newline_def split: if_splits)

lemma flagGroups_last: "([], s) \<in> set (flagGroups s)"
  by (induction s rule: flagGroups.induct) auto

lemma spaces_split:
  "r' \<in> set (spaces r) \<Longrightarrow> \<exists>sp. r = sp @ r' \<and> set sp \<subseteq> {CHR '' ''}"
proof (induction r)
  case Nil
  then show ?case by simp
next
  case (Cons c r)
  show ?case
  proof (cases "r' = c # r")
    case True
    then show ?thesis by simp
  next
    case False
    with Cons.prems have c: "c = CHR '' ''" and "r' \<in> set (spaces r)"
      by (auto split: if_splits)
    with Cons.IH obtain sp where "r = sp @ r'" "set sp \<subseteq> {CHR '' ''}" by blast
    then have "c # r = (c # sp) @ r' \<and> set (c # sp) \<subseteq> {CHR '' ''}" using c by simp
    then show ?thesis by blast
  qed
qed

lemma spaces_last: "s \<in> set (spaces s)"
  by (cases s) auto

lemma group1_split:
  "(m1, r) \<in> set (group1 s) \<Longrightarrow> s = m1 @ r \<and> newline \<notin> set m1"
proof -
  assume a: "(m1, r) \<in> set (group1 s)"
  show ?thesis
  proof (cases "(m1, r) \<in> set (flagGroups s)")
    case True
    then show ?thesis by (rule flagGroups_split)
  next
    case False
    with a have h: "HasPrefix s includeDirective" and m: "m1 = includeDirective"
      and r: "r = drop (length includeDirective) s"
      by (auto simp: group1_def split: if_splits)
    from h have "s = includeDirective @ drop (length includeDirective) s"
      unfolding HasPrefix_def by (metis append_take_drop_id)
    moreover have "newline \<notin> set includeDirective"
      by (simp add: includeDirective_def newline_def)
    ultimately show ?thesis using m r by simp
  qed
qed

lemma candidates_split:
  assumes "(m1, m2) \<in> set (candidates s)"
  shows "\<exists>sp. s = m1 @ sp @ m2 \<and> set sp \<subseteq> {CHR '' ''} \<and> newline \<notin> set m1"
proof -
  from assms obtain r where g: "(m1, r) \<in> set (group1 s)" and sp: "m2 \<in> set (spaces r)"
    by (auto simp: candidates_def)
  from spaces_split[OF sp] obtain sp where "r = sp @ m2" "set sp \<subseteq> {CHR '' ''}" by blast
  with group1_split[OF g] show ?thesis by auto
qed

lemma candidates_last: "([], s) \<in> set (candidates s)"
proof -
  have "([], s) \<in> set (group1 s)" by (simp add: group1_def flagGroups_last)
  moreover have "s \<in> set (spaces s)" by (rule spaces_last)
  ultimately show ?thesis unfolding candidates_def by force
qed

lemma FindStringSubmatch_SomeD:
  assumes "FindStringSubmatch s = Some (m1, m2)"
  shows "(m1, m2) \<in> set (candidates s) \<and> dotPlusEnd m2"
proof -
  from assms obtain ms where "filter (\<lambda>(m1, m2). dotPlusEnd m2) (candidates s) = (m1, m2) # ms"
    by (auto simp: FindStringSubmatch_def split: list.splits)
  then have "(m1, m2) \<in> set (filter (\<lambda>(m1, m2). dotPlusEnd m2) (candidates s))" by simp
  then show ?thesis by simp
qed

lemma FindStringSubmatch_None_iff:
  "FindStringSubmatch s = None \<longleftrightarrow> s = [] \<or> newline \<in> set s"
proof
  assume "FindStringSubmatch s = None"
  then have "filter (\<lambda>(m1, m2). dotPlusEnd m2) (candidates s) = []"
    by (auto simp: FindStringSubmatch_def split: list.splits)
  then have "\<not> dotPlusEnd s" using candidates_last[of s] by (auto simp: filter_empty_conv)
  then show "s = [] \<or> newline \<in> set s" by (simp add: dotPlusEnd_def)
next
  assume a: "s = [] \<or> newline \<in> set s"
  have "\<not> dotPlusEnd m2" if "(m1, m2) \<in> set (candidates s)" for m1 m2
  proof -
    from candidates_split[OF that] obtain sp where
      s: "s = m1 @ sp @ m2" and sp: "set sp \<subseteq> {CHR '' ''}" and m1: "newline \<notin> set m1"
      by blast
    have "newline \<notin> set sp" using sp by (auto simp: newline_def)
    with a s m1 show ?thesis by (auto simp: dotPlusEnd_def)
  qed
  then have "filter (\<lambda>(m1, m2). dotPlusEnd m2) (candidates s) = []"
    by (auto simp: filter_empty_conv)
  then show "FindStringSubmatch s = None" by (simp add: FindStringSubmatch_def)
qed

lemma FindStringSubmatch_arg_not_empty: "FindStringSubmatch s \<noteq> Some (m1, [])"
  using FindStringSubmatch_SomeD[of s m1 "[]"] by (auto simp: dotPlusEnd_def)

lemma rewrite_pattern_Inl_iff:
  "rewrite_pattern relPath pat = Inl e \<longleftrightarrow>
     e = IncorrectPattern (TrimSpace pat) \<and> \<not> HasPrefix (TrimSpace pat) ''//''
     \<and> FindStringSubmatch (TrimSpace pat) = None"
  by (auto simp: rewrite_pattern_def Let_def split: option.splits)

section \<open>Classification of the caller's patterns\<close>

text \<open>
  Claim C9. A pattern whose trimmed form is not empty, has no newline and does not begin
  with \<open>//\<close> is matched by \<open>flagsPath\<close> with a non-empty second capture, and is rewritten.
  The match fails, and the loop of \<open>do\<close> returns the error \<open>incorrect pattern\<close>, exactly
  for a trimmed pattern that is empty or contains a newline (and is not a comment). The
  second capture is never empty, so the branch \<open>m[2] == ""\<close> of the loop is never taken.
\<close>

theorem malformed_only_empty_or_newline:
  "(TrimSpace pat \<noteq> [] \<and> newline \<notin> set (TrimSpace pat) \<and> \<not> HasPrefix (TrimSpace pat) ''//''
      \<longrightarrow> (\<exists>m1 m2. FindStringSubmatch (TrimSpace pat) = Some (m1, m2) \<and> m2 \<noteq> []
            \<and> rewrite_pattern relPath pat = Inr (m1 @ Join [relPath, m2])))
   \<and> (FindStringSubmatch (TrimSpace pat) = None
        \<longleftrightarrow> TrimSpace pat = [] \<or> newline \<in> set (TrimSpace pat))
   \<and> (rewrite_pattern relPath pat = Inl e
        \<longleftrightarrow> e = IncorrectPattern (TrimSpace pat) \<and> \<not> HasPrefix (TrimSpace pat) ''//''
            \<and> (TrimSpace pat = [] \<or> newline \<in> set (TrimSpace pat)))
   \<and> FindStringSubmatch s \<noteq> Some (m1, [])"
proof (intro conjI impI)
  assume a: "TrimSpace pat \<noteq> [] \<and> newline \<notin> set (TrimSpace pat) \<and> \<not> HasPrefix (TrimSpace pat) ''//''"
  then have "FindStringSubmatch (TrimSpace pat) \<noteq> None"
    by (simp add: FindStringSubmatch_None_iff)
  then obtain m1 m2 where m: "FindStringSubmatch (TrimSpace pat) = Some (m1, m2)" by auto
  then have ne: "m2 \<noteq> []" using FindStringSubmatch_arg_not_empty[of "TrimSpace pat" m1] by auto
  with m a have "rewrite_pattern relPath pat = Inr (m1 @ Join [relPath, m2])"
    by (simp add: rewrite_pattern_def)
  with m ne show "\<exists>m1 m2. FindStringSubmatch (TrimSpace pat) = Some (m1, m2) \<and> m2 \<noteq> []
            \<and> rewrite_pattern relPath pat = Inr (m1 @ Join [relPath, m2])" by blast
next
  show "FindStringSubmatch (TrimSpace pat) = None
        \<longleftrightarrow> TrimSpace pat = [] \<or> newline \<in> set (TrimSpace pat)"
    by (rule FindStringSubmatch_None_iff)
next
  show "rewrite_pattern relPath pat = Inl e
        \<longleftrightarrow> e = IncorrectPattern (TrimSpace pat) \<and> \<not> HasPrefix (TrimSpace pat) ''//''
            \<and> (TrimSpace pat = [] \<or> newline \<in> set (TrimSpace pat))"
    by (simp add: rewrite_pattern_Inl_iff FindStringSubmatch_None_iff)
next
  show "FindStringSubmatch s \<noteq> Some (m1, [])" by (rule FindStringSubmatch_arg_not_empty)
qed

theorem malformed_only_empty_or_newline_witness:
  "(\<exists>m1 m2. FindStringSubmatch (TrimSpace ''  not a valid!!line(? '') = Some (m1, m2) \<and> m2 \<noteq> []
      \<and> rewrite_pattern ''/some/path'' ''  not a valid!!line(? '' = Inr (m1 @ Join [''/some/path'', m2]))
   \<and> rewrite_pattern ''/some/path'' ''   '' = Inl (IncorrectPattern [])"
proof -
  have "TrimSpace ''  not a valid!!line(? '' \<noteq> []
        \<and> newline \<notin> set (TrimSpace ''  not a valid!!line(? '')
        \<and> \<not> HasPrefix (TrimSpace ''  not a valid!!line(? '') ''//''"
    by code_simp
  moreover have "TrimSpace ''   '' = []" by code_simp
  moreover have "\<not> HasPrefix [] ''//''" by code_simp
  ultimately show ?thesis
    using malformed_only_empty_or_newline[of "''  not a valid!!line(? ''" "''/some/path''"]
      malformed_only_empty_or_newline[of "''   ''" "''/some/path''" "IncorrectPattern []"]
    by simp
qed

section \<open>Rewriting a directive line at concrete inputs\<close>

text \<open>
  Claim C7 at a line of flag groups only. The loop of \<open>do\<close> skips a line whose second
  capture is empty (main.go:206), but \<open>flagsPath\<close> ends in \<^verbatim>\<open>(.+)\<close> and never captures the
  empty string: on the line \<open>(?d)\<close> it gives up the flag group and matches with an empty
  prefix and \<open>(?d)\<close> as the path. With offset \<open>/some/path\<close> the line is rewritten to
  \<open>/some/path/(?d)\<close>, which no longer begins with its flag group, and that is what \<open>do\<close>
  appends to the ignore file. On \<open>(?d)(?i)\<close> the last flag group becomes the path. The
  two lines of the claim's examples, which have a path after their prefix, are
  rewritten as the claim says.
\<close>

theorem bare_flag_becomes_path:
  "FindStringSubmatch (TrimSpace ''(?d)'') = Some ([], ''(?d)'')
   \<and> rewrite_pattern ''/some/path'' ''(?d)'' = Inr ''/some/path/(?d)''
   \<and> \<not> HasPrefix ''/some/path/(?d)'' ''(?d)''
   \<and> rewrite_pattern ''/some/path'' ''(?d)(?i)'' = Inr ''(?d)/some/path/(?i)''
   \<and> snd (do fs_root (Some ''/root/some/path'') no_input
        \<lparr>Local = False, Synced = False, Absolute = False, Patterns = [''(?d)'']\<rparr>)
        ''/root/.stignore''
      = Some (File ([newline] @ ''/some/path/(?d)'' @ [newline]))
   \<and> rewrite_pattern ''/some/path'' ''(?d)**/.git'' = Inr ''(?d)/some/path/**/.git''
   \<and> rewrite_pattern ''/some/path'' ''#include extra.txt''
      = Inr ''#include /some/path/extra.txt''"
  by code_simp

section \<open>Errors of the operations\<close>

lemma Prompt_loop_error:
  "fst (Prompt_loop brk first inp out) = Inl e \<Longrightarrow> e = PromptFailed"
proof (induction brk first inp out rule: Prompt_loop.induct)
  case (1 brk first inp out)
  obtain line rest err where rs: "ReadString inp = (line, rest, err)" by (cases "ReadString inp") auto
  show ?case
    using "1.prems" "1.IH"[OF rs[symmetric] refl refl refl]
    by (subst (asm) Prompt_loop.simps) (auto simp: rs Let_def split: if_splits)
qed

lemma OpenAndAppend_error:
  "OpenAndAppend fs p toAppend = (Some e, fs') \<Longrightarrow> e = FileError p (PathError p) \<and> fs' = fs"
  by (auto simp: OpenAndAppend_def OpenFile_def split: option.splits node.splits)

lemma WriteToSynced_error:
  assumes "WriteToSynced fs con patterns stDir sp = (Some e, fs')"
  shows "e = PromptFailed \<or> (\<exists>p. e = FileError p (PathError p))"
proof (cases "OpenFile fs (Join [stDir, ignoreF])")
  case (Inl a)
  with assms show ?thesis
    by (auto simp: WriteToSynced_def OpenFile_def split: option.splits node.splits)
next
  case (Inr b)
  obtain fs1 f0 where b: "b = (fs1, f0)" by (cases b)
  show ?thesis
  proof (cases "if \<not> scan_lines (content fs1 f0) \<and> sp then fst (Prompt con) else Inr False")
    case (Inl e')
    then have "e' = PromptFailed"
      by (auto simp: Prompt_def split: if_splits dest: Prompt_loop_error)
    with assms Inr b Inl show ?thesis by (simp add: WriteToSynced_def Let_def)
  next
    case (Inr prompt)
    with assms \<open>OpenFile fs (Join [stDir, ignoreF]) = Inr b\<close> b show ?thesis
      by (auto simp: WriteToSynced_def Let_def split: if_splits prod.splits option.splits
          dest: OpenAndAppend_error)
  qed
qed

lemma rewrite_patterns_Inl:
  "rewrite_patterns relPath pats = Inl e \<Longrightarrow>
     \<exists>pat \<in> set pats. rewrite_pattern relPath pat = Inl e"
  by (induction pats) (auto split: sum.splits)

lemma rewrite_patterns_fails:
  "pat \<in> set pats \<Longrightarrow> rewrite_pattern relPath pat = Inl e \<Longrightarrow>
     \<exists>e'. rewrite_patterns relPath pats = Inl e'"
  by (induction pats) (auto split: sum.splits)

lemma rewrite_pattern_Inl_unmatched:
  "rewrite_pattern relPath pat = Inl e \<longleftrightarrow> e = IncorrectPattern (TrimSpace pat) \<and> unmatched pat"
  by (auto simp: rewrite_pattern_Inl_iff unmatched_def Let_def)

lemma unmatched_iff:
  "unmatched pat \<longleftrightarrow>
     \<not> HasPrefix (TrimSpace pat) ''//''
     \<and> (TrimSpace pat = [] \<or> newline \<in> set (TrimSpace pat))"
  by (simp add: unmatched_def Let_def FindStringSubmatch_None_iff)

lemma rewrite_patterns_first_unmatched:
  "pat \<in> set pats \<Longrightarrow> unmatched pat \<Longrightarrow>
     \<exists>pre bad post. pats = pre @ bad # post \<and> list_all (\<lambda>p. \<not> unmatched p) pre \<and> unmatched bad"
proof (induction pats)
  case Nil
  then show ?case by simp
next
  case (Cons a pats)
  show ?case
  proof (cases "unmatched a")
    case True
    then have "a # pats = [] @ a # pats \<and> list_all (\<lambda>p. \<not> unmatched p) [] \<and> unmatched a" by simp
    then show ?thesis by blast
  next
    case False
    with Cons.prems have "pat \<in> set pats" by auto
    from Cons.IH[OF this Cons.prems(2)] obtain pre bad post where
      "pats = pre @ bad # post" "list_all (\<lambda>p. \<not> unmatched p) pre" "unmatched bad" by blast
    with False have "a # pats = (a # pre) @ bad # post \<and> list_all (\<lambda>p. \<not> unmatched p) (a # pre)
        \<and> unmatched bad" by simp
    then show ?thesis by blast
  qed
qed

lemma rewrite_patterns_stops:
  "list_all (\<lambda>p. \<not> unmatched p) pre \<Longrightarrow> unmatched bad \<Longrightarrow>
     rewrite_patterns relPath (pre @ bad # post) = Inl (IncorrectPattern (TrimSpace bad))"
proof (induction pre)
  case Nil
  then have "rewrite_pattern relPath bad = Inl (IncorrectPattern (TrimSpace bad))"
    by (simp add: rewrite_pattern_Inl_unmatched)
  then show ?case by simp
next
  case (Cons a pre)
  then have "\<not> unmatched a" by simp
  then obtain p where "rewrite_pattern relPath a = Inr p"
    using rewrite_pattern_Inl_unmatched[of relPath a] by (cases "rewrite_pattern relPath a") auto
  with Cons show ?case by simp
qed

lemma do_not_inside:
  "FindParentSyncthingDir fs wd = Some ([], rel) \<Longrightarrow>
     do fs wd con args = (Inl NotInsideSyncthingFolder, fs)"
  by (simp add: do_def)

lemma do_rewrite_error:
  assumes "FindParentSyncthingDir fs wd = Some (stDir, relPath)" and "stDir \<noteq> []"
    and "\<not> Absolute args" and "rewrite_patterns relPath (Patterns args) = Inl e"
  shows "do fs wd con args = (Inl e, fs)"
  using assms by (simp add: do_def)

lemma do_error_shape:
  assumes "FindParentSyncthingDir fs wd = Some (stDir, relPath)" and "stDir \<noteq> []"
    and "fst (do fs wd con args) = Inl (IncorrectPattern p)"
  shows "\<not> Absolute args \<and> rewrite_patterns relPath (Patterns args) = Inl (IncorrectPattern p)"
proof (cases "if \<not> Absolute args then rewrite_patterns relPath (Patterns args) else Inr (Patterns args)")
  case (Inl e)
  with assms show ?thesis by (auto simp: do_def split: if_splits)
next
  case (Inr pats)
  have False
    using assms Inr
    by (auto simp: do_def Let_def split: if_splits prod.splits option.splits
        dest: WriteToSynced_error OpenAndAppend_error)
  then show ?thesis ..
qed

section \<open>A pattern that fails classification\<close>

text \<open>
  Claim C2, as amended. In non-absolute mode, inside a synchronized folder, \<open>do\<close> returns
  the error \<open>incorrect pattern\<close> exactly when the trimmed form of some pattern is not a
  comment and is empty or holds a newline: these are the only lines \<open>flagsPath\<close> does not
  match. The error is that of the first such pattern and its message quotes the trimmed
  pattern; the file system is returned as it was. The pattern \<open>not a valid!!line(?\<close> is
  not such a pattern.
\<close>

theorem abort_iff_unmatched:
  assumes "FindParentSyncthingDir fs wd = Some (stDir, relPath)" and "stDir \<noteq> []"
    and "\<not> Absolute args"
  shows "((\<exists>p. fst (do fs wd con args) = Inl (IncorrectPattern p))
            \<longleftrightarrow> (\<exists>pat \<in> set (Patterns args). unmatched pat))
    \<and> (\<forall>pre bad post. Patterns args = pre @ bad # post
            \<and> list_all (\<lambda>p. \<not> unmatched p) pre \<and> unmatched bad
          \<longrightarrow> do fs wd con args = (Inl (IncorrectPattern (TrimSpace bad)), fs)
              \<and> Error (IncorrectPattern (TrimSpace bad))
                  = ''incorrect pattern: '' @ [CHR 0x22] @ TrimSpace bad @ [CHR 0x22])
    \<and> (\<forall>pat. unmatched pat \<longleftrightarrow>
            \<not> HasPrefix (TrimSpace pat) ''//''
            \<and> (TrimSpace pat = [] \<or> newline \<in> set (TrimSpace pat)))
    \<and> \<not> unmatched ''not a valid!!line(?''"
proof (intro conjI allI impI)
  show "(\<exists>p. fst (do fs wd con args) = Inl (IncorrectPattern p))
            \<longleftrightarrow> (\<exists>pat \<in> set (Patterns args). unmatched pat)"
  proof
    assume "\<exists>p. fst (do fs wd con args) = Inl (IncorrectPattern p)"
    then obtain p where "fst (do fs wd con args) = Inl (IncorrectPattern p)" ..
    from do_error_shape[OF assms(1,2) this]
    have "rewrite_patterns relPath (Patterns args) = Inl (IncorrectPattern p)" ..
    then obtain pat where "pat \<in> set (Patterns args)"
      "rewrite_pattern relPath pat = Inl (IncorrectPattern p)"
      by (blast dest: rewrite_patterns_Inl)
    then show "\<exists>pat \<in> set (Patterns args). unmatched pat"
      by (auto simp: rewrite_pattern_Inl_unmatched)
  next
    assume "\<exists>pat \<in> set (Patterns args). unmatched pat"
    then obtain pre bad post where "Patterns args = pre @ bad # post"
      "list_all (\<lambda>p. \<not> unmatched p) pre" "unmatched bad"
      by (blast dest: rewrite_patterns_first_unmatched)
    then have "rewrite_patterns relPath (Patterns args) = Inl (IncorrectPattern (TrimSpace bad))"
      by (simp add: rewrite_patterns_stops)
    from do_rewrite_error[OF assms this]
    show "\<exists>p. fst (do fs wd con args) = Inl (IncorrectPattern p)" by auto
  qed
next
  fix pre bad post
  assume "Patterns args = pre @ bad # post
            \<and> list_all (\<lambda>p. \<not> unmatched p) pre \<and> unmatched bad"
  then have "rewrite_patterns relPath (Patterns args) = Inl (IncorrectPattern (TrimSpace bad))"
    by (simp add: rewrite_patterns_stops)
  from do_rewrite_error[OF assms this]
  show "do fs wd con args = (Inl (IncorrectPattern (TrimSpace bad)), fs)" .
next
  fix bad :: string
  show "Error (IncorrectPattern (TrimSpace bad))
                  = ''incorrect pattern: '' @ [CHR 0x22] @ TrimSpace bad @ [CHR 0x22]"
    by simp
next
  fix pat
  show "unmatched pat \<longleftrightarrow>
            \<not> HasPrefix (TrimSpace pat) ''//''
            \<and> (TrimSpace pat = [] \<or> newline \<in> set (TrimSpace pat))"
    by (rule unmatched_iff)
next
  show "\<not> unmatched ''not a valid!!line(?''" by code_simp
qed

theorem abort_iff_unmatched_witness:
  "do fs_root (Some ''/root/some/path'') no_input
      \<lparr>Local = False, Synced = False, Absolute = False, Patterns = [''*.png'', ''  '', ''x'']\<rparr>
    = (Inl (IncorrectPattern []), fs_root)"
proof -
  let ?args = "\<lparr>Local = False, Synced = False, Absolute = False, Patterns = [''*.png'', ''  '', ''x'']\<rparr>"
  have 1: "FindParentSyncthingDir fs_root (Some ''/root/some/path'') = Some (''/root'', ''/some/path'')"
    by code_simp
  have 2: "''/root'' \<noteq> []" by simp
  have 3: "\<not> Absolute ?args" by simp
  have 4: "Patterns ?args = [''*.png''] @ ''  '' # [''x'']
      \<and> list_all (\<lambda>p. \<not> unmatched p) [''*.png''] \<and> unmatched ''  ''"
    by code_simp
  have 5: "TrimSpace ''  '' = []" by code_simp
  from abort_iff_unmatched[OF 1 2 3, of no_input] 4
  have "do fs_root (Some ''/root/some/path'') no_input ?args
          = (Inl (IncorrectPattern (TrimSpace ''  '')), fs_root)"
    by blast
  then show ?thesis by (simp only: 5)
qed

text \<open>
  Claim C2 as stated fails: in \<open>/root/some/path\<close>, with the folder's root at \<open>/root\<close>, the
  pattern \<open>not a valid!!line(?\<close> is matched with an empty prefix, rewritten to
  \<open>/some/path/not a valid!!line(?\<close> and appended to the new file \<open>/root/.stignore\<close>; \<open>do\<close>
  returns no error.
\<close>

theorem invalid_looking_pattern_is_written:
  "fst (do fs_root (Some ''/root/some/path'') no_input
      \<lparr>Local = False, Synced = False, Absolute = False, Patterns = [''not a valid!!line(?'']\<rparr>)
     = Inr ''/root''
   \<and> snd (do fs_root (Some ''/root/some/path'') no_input
      \<lparr>Local = False, Synced = False, Absolute = False, Patterns = [''not a valid!!line(?'']\<rparr>)
       ''/root/.stignore''
     = Some (File ([newline] @ ''/some/path/not a valid!!line(?'' @ [newline]))"
  by code_simp

text \<open>
  Claim C5. In non-absolute mode, if the classification of one of the caller's patterns
  fails, the file system \<open>do\<close> leaves is the one it was given: no file is created and no
  file's content changes, the primary and the secondary file included. Inside a
  synchronized folder the error \<open>do\<close> returns is \<open>incorrect pattern\<close>, for a pattern of the
  list whose classification fails.
\<close>

theorem malformed_pattern_touches_no_file:
  assumes "\<not> Absolute args" and "pat \<in> set (Patterns args)" and "unmatched pat"
  shows "snd (do fs wd con args) = fs
       \<and> (\<forall>stDir relPath.
             FindParentSyncthingDir fs wd = Some (stDir, relPath) \<and> stDir \<noteq> [] \<longrightarrow>
             (\<exists>bad. bad \<in> set (Patterns args) \<and> unmatched bad
                \<and> do fs wd con args = (Inl (IncorrectPattern (TrimSpace bad)), fs)))"
proof -
  from rewrite_patterns_first_unmatched[OF assms(2,3)] obtain pre bad post where
    p: "Patterns args = pre @ bad # post" "list_all (\<lambda>p. \<not> unmatched p) pre" "unmatched bad"
    by blast
  then have r: "rewrite_patterns relPath (Patterns args) = Inl (IncorrectPattern (TrimSpace bad))"
    for relPath
    by (simp add: rewrite_patterns_stops)
  have found: "do fs wd con args = (Inl (IncorrectPattern (TrimSpace bad)), fs)"
    if "FindParentSyncthingDir fs wd = Some (stDir, relPath)" "stDir \<noteq> []" for stDir relPath
    using do_rewrite_error[OF that assms(1) r] .
  have "snd (do fs wd con args) = fs"
  proof (cases "FindParentSyncthingDir fs wd")
    case None
    then show ?thesis by (simp add: do_def)
  next
    case (Some a)
    obtain stDir relPath where a: "a = (stDir, relPath)" by (cases a)
    show ?thesis
    proof (cases "stDir = []")
      case True
      with Some a show ?thesis by (simp add: do_not_inside)
    next
      case False
      with Some a found show ?thesis by simp
    qed
  qed
  moreover have "bad \<in> set (Patterns args)" using p(1) by simp
  ultimately show ?thesis using found p(3) by blast
qed

theorem malformed_pattern_touches_no_file_witness:
  "snd (do fs_unlinked (Some ''/root/some/path'') no_input
      \<lparr>Local = False, Synced = True, Absolute = False,
       Patterns = [''*.png'', [CHR ''a'', newline, CHR ''b'']]\<rparr>) = fs_unlinked
   \<and> (\<exists>bad. fst (do fs_unlinked (Some ''/root/some/path'') no_input
      \<lparr>Local = False, Synced = True, Absolute = False,
       Patterns = [''*.png'', [CHR ''a'', newline, CHR ''b'']]\<rparr>)
        = Inl (IncorrectPattern bad))"
proof -
  let ?args = "\<lparr>Local = False, Synced = True, Absolute = False,
       Patterns = [''*.png'', [CHR ''a'', newline, CHR ''b'']]\<rparr>"
  have 1: "FindParentSyncthingDir fs_unlinked (Some ''/root/some/path'')
            = Some (''/root'', ''/some/path'') \<and> ''/root'' \<noteq> []"
    by code_simp
  have 3: "\<not> Absolute ?args" by simp
  have 4: "[CHR ''a'', newline, CHR ''b''] \<in> set (Patterns ?args)" by simp
  have 5: "unmatched [CHR ''a'', newline, CHR ''b'']" by code_simp
  from malformed_pattern_touches_no_file[OF 3 4 5, of fs_unlinked "Some ''/root/some/path''" no_input] 1
  show ?thesis by (metis fst_conv)
qed

section \<open>The upward walk on clean absolute paths\<close>

text \<open>The walk never returns a path longer than the one it starts from, so the slice
  expression of \<open>FindParentSyncthingDir\<close> does not panic.\<close>

lemma walk_length:
  "walk fs cur = ''.'' \<or> walk fs cur = ''/'' \<or> length (walk fs cur) \<le> length cur"
proof (induction fs cur rule: walk.induct)
  case (1 fs cur)
  show ?case
  proof (cases "cur \<noteq> ''.'' \<and> cur \<noteq> ''/''")
    case False
    then show ?thesis by (auto simp: walk.simps)
  next
    case True
    note nt = this
    have up: "walk fs (Dir cur) = ''.'' \<or> walk fs (Dir cur) = ''/''
              \<or> length (walk fs (Dir cur)) \<le> length cur"
      if ih: "walk fs (Dir cur) = ''.'' \<or> walk fs (Dir cur) = ''/''
              \<or> length (walk fs (Dir cur)) \<le> length (Dir cur)"
    proof -
      from Dir_cases[of cur] consider "Dir cur = ''.'' \<or> Dir cur = ''/''"
        | "length (Dir cur) < length cur" by blast
      then show ?thesis
      proof cases
        case 1
        then have "walk fs (Dir cur) = Dir cur" by (auto simp: walk.simps)
        with 1 show ?thesis by metis
      next
        case 2
        with ih show ?thesis by auto
      qed
    qed
    show ?thesis
    proof (cases "fs (Join [cur, ''.stfolder''])")
      case None
      with nt have "walk fs cur = walk fs (Dir cur)" by (subst walk.simps) simp
      with up[OF "1.IH"(1)[OF nt None]] show ?thesis by simp
    next
      case (Some n)
      show ?thesis
      proof (cases n)
        case (File c)
        with Some nt have "walk fs cur = walk fs (Dir cur)" by (subst walk.simps) simp
        with up[OF "1.IH"(2)[OF nt Some File]] show ?thesis by simp
      next
        case Directory
        with Some nt have "walk fs cur = cur" by (subst walk.simps) simp
        then show ?thesis by simp
      qed
    qed
  qed
qed

lemma FindParentSyncthingDir_no_panic: "FindParentSyncthingDir fs wd \<noteq> None"
proof -
  have "slice_from cwd (length (walk fs cwd)) \<noteq> None"
    if "walk fs cwd \<noteq> ''.''" "walk fs cwd \<noteq> ''/''" for cwd
    using walk_length[of fs cwd] that by (simp add: slice_from_def)
  then show ?thesis
    by (auto simp: FindParentSyncthingDir_def Let_def split: option.splits)
qed

lemma split_sep_no_sep: "CHR ''/'' \<notin> set e \<Longrightarrow> split_sep e = [e]"
  by (induction e) auto

lemma split_sep_append_sep: "split_sep (a @ CHR ''/'' # b) = split_sep a @ split_sep b"
  by (induction a) (auto simp: split_sep_not_Nil split: list.splits)

lemma join_sep_Cons: "join_sep (e # es) = e @ offset_of es"
  by (induction es arbitrary: e) (auto simp: offset_of_def)

lemma join_sep_append: "xs \<noteq> [] \<Longrightarrow> join_sep (xs @ ys) = join_sep xs @ offset_of ys"
proof (induction xs rule: join_sep.induct)
  case 1
  then show ?case by simp
next
  case (2 e)
  then show ?case using join_sep_Cons[of e ys] join_sep_Cons[of e "[]"] by simp
next
  case (3 e v va)
  then show ?case by simp
qed

lemma abs_path_append: "xs \<noteq> [] \<Longrightarrow> abs_path (xs @ ys) = abs_path xs @ offset_of ys"
  by (simp add: abs_path_def join_sep_append)

lemma abs_path_snoc: "abs_path (es @ [e]) = (if es = [] then [] else abs_path es) @ CHR ''/'' # e"
  by (cases "es = []") (simp_all add: abs_path_def join_sep_append offset_of_def)

lemma split_sep_join_sep:
  "list_all valid_elem es \<Longrightarrow> es \<noteq> [] \<Longrightarrow> split_sep (join_sep es) = es"
proof (induction es rule: join_sep.induct)
  case 1
  then show ?case by simp
next
  case (2 e)
  then show ?case by (simp add: split_sep_no_sep valid_elem_def)
next
  case (3 e v va)
  then show ?case by (simp add: split_sep_append_sep split_sep_no_sep valid_elem_def)
qed

lemma clean_elems_valid:
  "list_all valid_elem es \<Longrightarrow> clean_elems r out es = rev out @ es"
  by (induction es arbitrary: out) (auto simp: valid_elem_def)

lemma clean_elems_snoc_valid:
  "valid_elem e \<Longrightarrow> clean_elems r out (es @ [e]) = clean_elems r out es @ [e]"
  by (induction r out es rule: clean_elems.induct) (auto simp: valid_elem_def split: list.splits)

lemma split_sep_abs_path:
  "list_all valid_elem es \<Longrightarrow> split_sep (abs_path es) = [] # (if es = [] then [[]] else es)"
  by (simp add: abs_path_def split_sep_join_sep)

lemma Clean_abs_path: "list_all valid_elem es \<Longrightarrow> Clean (abs_path es) = abs_path es"
proof -
  assume v: "list_all valid_elem es"
  have "clean_elems True [] (split_sep (abs_path es)) = es"
    using v by (simp add: split_sep_abs_path clean_elems_valid)
  then show ?thesis by (simp add: Clean_def) (simp add: abs_path_def)
qed

lemma Join_abs_path:
  assumes "list_all valid_elem es" and "valid_elem e"
  shows "Join [abs_path es, e] = abs_path (es @ [e])"
proof -
  have sl: "CHR ''/'' \<notin> set e" using assms(2) by (simp add: valid_elem_def)
  have "split_sep (abs_path es @ CHR ''/'' # e) = ([] # (if es = [] then [[]] else es)) @ [e]"
    using assms(1) sl by (simp add: split_sep_append_sep split_sep_abs_path split_sep_no_sep)
  moreover have "clean_elems True [] (([] # (if es = [] then [[]] else es)) @ [e]) = es @ [e]"
    using assms by (cases "es = []") (simp_all add: clean_elems_valid, simp add: valid_elem_def)
  ultimately have "clean_elems True [] (split_sep (abs_path es @ CHR ''/'' # e)) = es @ [e]"
    by simp
  moreover have "hd (abs_path es @ CHR ''/'' # e) = CHR ''/''" by (simp add: abs_path_def)
  ultimately have "Clean (abs_path es @ CHR ''/'' # e) = abs_path (es @ [e])"
    unfolding Clean_def by (simp add: abs_path_def)
  then show ?thesis by (simp add: abs_path_def)
qed

lemma Dir_abs_path:
  assumes "list_all valid_elem es" and "valid_elem e"
  shows "Dir (abs_path (es @ [e])) = abs_path es"
proof -
  let ?pre = "(if es = [] then [] else abs_path es) @ ''/''"
  have sl: "CHR ''/'' \<notin> set e" using assms(2) by (simp add: valid_elem_def)
  have "abs_path (es @ [e]) = ?pre @ e" by (simp add: abs_path_snoc)
  then have "rev (abs_path (es @ [e])) = rev e @ CHR ''/'' # rev (if es = [] then [] else abs_path es)"
    by simp
  then have "dropWhile (\<lambda>c. c \<noteq> CHR ''/'') (rev (abs_path (es @ [e])))
      = CHR ''/'' # rev (if es = [] then [] else abs_path es)"
    using sl by (auto simp: dropWhile_append3)
  then have D: "Dir (abs_path (es @ [e])) = Clean ?pre" by (simp add: Dir_def)
  show ?thesis
  proof (cases "es = []")
    case True
    then show ?thesis using D by (simp add: Clean_def abs_path_def)
  next
    case False
    then have "Clean ?pre = Clean (abs_path es)"
      using Clean_snoc_sep[of "abs_path es"] by (simp add: abs_path_def)
    then show ?thesis using D assms(1) by (simp add: Clean_abs_path)
  qed
qed

lemma abs_path_not_terminal:
  "abs_path (es @ [e]) \<noteq> ''.'' \<and> (e \<noteq> [] \<longrightarrow> abs_path (es @ [e]) \<noteq> ''/'')"
proof -
  have "hd (abs_path (es @ [e])) = CHR ''/''" by (simp add: abs_path_def)
  then have 1: "abs_path (es @ [e]) \<noteq> ''.''" by auto
  have "length (abs_path (es @ [e])) = length (if es = [] then [] else abs_path es) + 1 + length e"
    by (simp only: abs_path_snoc[of es e] length_append list.size)
  then have 2: "e \<noteq> [] \<longrightarrow> abs_path (es @ [e]) \<noteq> ''/''" by auto
  from 1 2 show ?thesis by simp
qed

lemma Join_marker:
  assumes "list_all valid_elem es" and "valid_elem e"
  shows "Join [abs_path (es @ [e]), ''.stfolder''] = abs_path (es @ [e]) @ ''/.stfolder''"
proof -
  have "valid_elem ''.stfolder''" by (simp add: valid_elem_def)
  moreover have "list_all valid_elem (es @ [e])" using assms by simp
  ultimately have "Join [abs_path (es @ [e]), ''.stfolder''] = abs_path ((es @ [e]) @ [''.stfolder''])"
    by (rule Join_abs_path[rotated])
  moreover have "abs_path ((es @ [e]) @ [''.stfolder'']) = abs_path (es @ [e]) @ ''/.stfolder''"
    using abs_path_snoc[of "es @ [e]" "''.stfolder''"] by simp
  ultimately show ?thesis by (simp only:)
qed

lemma walk_root: "walk fs (abs_path []) = ''/''"
  by (simp add: walk.simps abs_path_def)

lemma walk_snoc:
  assumes "list_all valid_elem es" and "valid_elem e"
  shows "walk fs (abs_path (es @ [e])) =
           (if has_marker fs (abs_path (es @ [e])) then abs_path (es @ [e])
            else walk fs (abs_path es))"
proof -
  have nt: "abs_path (es @ [e]) \<noteq> ''.''" "abs_path (es @ [e]) \<noteq> ''/''"
    using abs_path_not_terminal[of es e] assms(2) by (auto simp: valid_elem_def)
  have "walk fs (abs_path (es @ [e])) =
      (case fs (Join [abs_path (es @ [e]), ''.stfolder'']) of
         None \<Rightarrow> walk fs (Dir (abs_path (es @ [e])))
       | Some (File c) \<Rightarrow> walk fs (Dir (abs_path (es @ [e])))
       | Some Directory \<Rightarrow> abs_path (es @ [e]))"
    by (subst walk.simps) (simp only: nt simp_thms if_True)
  also have "\<dots> =
      (case fs (abs_path (es @ [e]) @ ''/.stfolder'') of
         None \<Rightarrow> walk fs (abs_path es)
       | Some (File c) \<Rightarrow> walk fs (abs_path es)
       | Some Directory \<Rightarrow> abs_path (es @ [e]))"
    by (simp only: Join_marker[OF assms] Dir_abs_path[OF assms])
  also have "\<dots> = (if has_marker fs (abs_path (es @ [e])) then abs_path (es @ [e])
            else walk fs (abs_path es))"
    by (simp add: has_marker_def split: option.splits node.splits)
  finally show ?thesis .
qed

lemma walk_nearest:
  assumes "list_all valid_elem es" and "k \<le> length es"
    and "\<forall>j. k < j \<and> j \<le> length es \<longrightarrow> \<not> has_marker fs (abs_path (take j es))"
  shows "walk fs (abs_path es) = walk fs (abs_path (take k es))"
  using assms
proof (induction es rule: rev_induct)
  case Nil
  then show ?case by simp
next
  case (snoc x xs)
  show ?case
  proof (cases "k = Suc (length xs)")
    case True
    then show ?thesis by simp
  next
    case False
    with snoc.prems(2) have k: "k \<le> length xs" by simp
    have v: "list_all valid_elem xs" "valid_elem x" using snoc.prems(1) by simp_all
    have none: "\<not> has_marker fs (abs_path (take j (xs @ [x])))"
      if "k < j" and "j \<le> Suc (length xs)" for j
      using snoc.prems(3) that by simp
    have "\<not> has_marker fs (abs_path (xs @ [x]))"
      using none[of "Suc (length xs)"] k by simp
    then have "walk fs (abs_path (xs @ [x])) = walk fs (abs_path xs)"
      by (simp only: walk_snoc[OF v] if_False)
    also have "\<dots> = walk fs (abs_path (take k xs))"
    proof (rule snoc.IH[OF v(1) k], intro allI impI)
      fix j assume j: "k < j \<and> j \<le> length xs"
      then have "\<not> has_marker fs (abs_path (take j (xs @ [x])))"
        using none[of j] by simp
      then show "\<not> has_marker fs (abs_path (take j xs))" using j by simp
    qed
    also have "take k xs = take k (xs @ [x])" using k by simp
    finally show ?thesis .
  qed
qed

lemma walk_at_marker:
  assumes "list_all valid_elem es" and "1 \<le> k" and "k \<le> length es"
    and "has_marker fs (abs_path (take k es))"
  shows "walk fs (abs_path (take k es)) = abs_path (take k es)"
proof -
  from assms(2,3) have "take k es \<noteq> []" by (cases es) auto
  then obtain ys y where t: "take k es = ys @ [y]" by (metis rev_exhaust)
  have "list_all valid_elem (take k es)"
    using assms(1) by (auto simp: list_all_iff dest: in_set_takeD)
  with t have "list_all valid_elem ys" "valid_elem y" by simp_all
  from walk_snoc[OF this] assms(4) show ?thesis by (simp add: t)
qed

lemma FindParentSyncthingDir_abs_path:
  assumes "list_all valid_elem es"
  shows "FindParentSyncthingDir fs (Some (abs_path es)) =
           (if walk fs (abs_path es) = ''.'' \<or> walk fs (abs_path es) = ''/'' then Some ([], [])
            else map_option (Pair (walk fs (abs_path es)))
                   (slice_from (abs_path es) (length (walk fs (abs_path es)))))"
proof -
  have "HasPrefix (abs_path es) ''/''" by (simp add: HasPrefix_def abs_path_def)
  then have "Abs (Some (abs_path es)) (abs_path es) = Some (abs_path es)"
    using assms by (simp add: Abs_def Clean_abs_path)
  then show ?thesis by (simp add: FindParentSyncthingDir_def Let_def)
qed

lemma list_all_valid_take: "list_all valid_elem es \<Longrightarrow> list_all valid_elem (take k es)"
  by (auto simp: list_all_iff dest: in_set_takeD)

text \<open>\<open>filepath.Abs\<close> turns every absolute working directory into a clean absolute path,
  from which the walk starts.\<close>

lemma split_sep_elems_no_sep: "e \<in> set (split_sep s) \<Longrightarrow> CHR ''/'' \<notin> set e"
proof (induction s arbitrary: e)
  case Nil
  then show ?case by simp
next
  case (Cons c s)
  show ?case
  proof (cases "c = CHR ''/''")
    case True
    with Cons show ?thesis by auto
  next
    case False
    obtain x xs where sp: "split_sep s = x # xs"
      using split_sep_not_Nil[of s] by (cases "split_sep s") auto
    with False Cons.prems have "e = c # x \<or> e \<in> set xs" by simp
    moreover have "CHR ''/'' \<notin> set x" using Cons.IH[of x] sp by simp
    moreover have "e \<in> set xs \<Longrightarrow> CHR ''/'' \<notin> set e" using Cons.IH[of e] sp by simp
    ultimately show ?thesis using False by auto
  qed
qed

lemma clean_elems_rooted_valid:
  "list_all valid_elem out \<Longrightarrow> (\<forall>e \<in> set xs. CHR ''/'' \<notin> set e) \<Longrightarrow>
     list_all valid_elem (clean_elems True out xs)"
proof (induction xs arbitrary: out)
  case Nil
  then show ?case by (simp add: list_all_iff)
next
  case (Cons e xs)
  have rest: "\<forall>e \<in> set xs. CHR ''/'' \<notin> set e" using Cons.prems(2) by simp
  show ?case
  proof (cases "e = [] \<or> e = ''.''")
    case True
    with Cons.IH[OF Cons.prems(1) rest] show ?thesis by auto
  next
    case False
    note ne = this
    show ?thesis
    proof (cases "e = ''..''")
      case True
      show ?thesis
      proof (cases out)
        case Nil
        with True Cons.IH[OF Cons.prems(1) rest] show ?thesis by simp
      next
        case (Cons t ts)
        with Cons.prems(1) have vt: "valid_elem t" and vts: "list_all valid_elem ts"
          by simp_all
        from vt have "t \<noteq> ''..''" by (simp add: valid_elem_def)
        with True Cons Cons.IH[OF vts rest] show ?thesis by simp
      qed
    next
      case False
      have "valid_elem e" using ne False Cons.prems(2) by (simp add: valid_elem_def)
      with Cons.prems(1) have "list_all valid_elem (e # out)" by simp
      from Cons.IH[OF this rest] False ne show ?thesis by simp
    qed
  qed
qed

lemma Clean_absolute:
  assumes "HasPrefix p ''/''"
  shows "\<exists>es. list_all valid_elem es \<and> Clean p = abs_path es"
proof -
  from assms have p: "p \<noteq> []" "hd p = CHR ''/''"
    by (cases p; simp add: HasPrefix_def)+
  let ?ces = "clean_elems True [] (split_sep p)"
  have "list_all valid_elem ?ces"
    by (rule clean_elems_rooted_valid) (auto dest: split_sep_elems_no_sep)
  moreover have "Clean p = abs_path ?ces" using p by (simp add: Clean_def abs_path_def)
  ultimately show ?thesis by blast
qed

lemma FindParentSyncthingDir_absolute:
  assumes "HasPrefix p ''/''"
  shows "\<exists>es. list_all valid_elem es \<and> Clean p = abs_path es
           \<and> FindParentSyncthingDir fs (Some p) = FindParentSyncthingDir fs (Some (abs_path es))"
proof -
  from Clean_absolute[OF assms] obtain es where
    es: "list_all valid_elem es" "Clean p = abs_path es" by blast
  have "HasPrefix (abs_path es) ''/''" by (simp add: HasPrefix_def abs_path_def)
  then have "Abs (Some (abs_path es)) (abs_path es) = Some (abs_path es)"
    using es(1) by (simp add: Abs_def Clean_abs_path)
  moreover have "Abs (Some p) p = Some (abs_path es)" using assms es(2) by (simp add: Abs_def)
  ultimately have "FindParentSyncthingDir fs (Some p) = FindParentSyncthingDir fs (Some (abs_path es))"
    by (simp add: FindParentSyncthingDir_def)
  with es show ?thesis by blast
qed

text \<open>
  Claim C10. Let the working directory be the clean absolute path \<open>abs_path es\<close>. If
  \<open>abs_path (take k es)\<close>, with \<open>1 \<le> k\<close>, is the nearest ancestor (the working directory
  included) whose entry \<open>.stfolder\<close> is a directory, \<open>FindParentSyncthingDir\<close> returns that
  ancestor, which is never the root \<open>/\<close>, and the offset: the working directory's path
  with the ancestor's path removed, empty or starting with a separator. An entry
  \<open>.stfolder\<close> that is a regular file does not make a directory such an ancestor. If no
  ancestor below the root has the marker, or \<open>os.Getwd\<close> fails, the result is the pair
  of empty strings, which \<open>do\<close> reports as not being inside a synchronized folder.
\<close>

theorem FindParentSyncthingDir_nearest_marker:
  assumes "list_all valid_elem es"
  shows "(1 \<le> k \<and> k \<le> length es \<and> has_marker fs (abs_path (take k es))
            \<and> (\<forall>j. k < j \<and> j \<le> length es \<longrightarrow> \<not> has_marker fs (abs_path (take j es)))
          \<longrightarrow> FindParentSyncthingDir fs (Some (abs_path es))
                = Some (abs_path (take k es), offset_of (drop k es))
              \<and> abs_path (take k es) @ offset_of (drop k es) = abs_path es
              \<and> abs_path (take k es) \<noteq> ''/'')
       \<and> ((\<forall>j. 1 \<le> j \<and> j \<le> length es \<longrightarrow> \<not> has_marker fs (abs_path (take j es)))
          \<longrightarrow> FindParentSyncthingDir fs (Some (abs_path es)) = Some ([], [])
              \<and> do fs (Some (abs_path es)) con args = (Inl NotInsideSyncthingFolder, fs))
       \<and> FindParentSyncthingDir fs None = Some ([], [])"
proof (intro conjI impI)
  assume a: "1 \<le> k \<and> k \<le> length es \<and> has_marker fs (abs_path (take k es))
            \<and> (\<forall>j. k < j \<and> j \<le> length es \<longrightarrow> \<not> has_marker fs (abs_path (take j es)))"
  then have k: "1 \<le> k" "k \<le> length es" and m: "has_marker fs (abs_path (take k es))"
    and above: "\<forall>j. k < j \<and> j \<le> length es \<longrightarrow> \<not> has_marker fs (abs_path (take j es))"
    by auto
  let ?root = "abs_path (take k es)"
  have w: "walk fs (abs_path es) = ?root"
    using walk_nearest[OF assms k(2) above] walk_at_marker[OF assms k m] by simp
  from k have "take k es \<noteq> []" by (cases es) auto
  then obtain ys y where t: "take k es = ys @ [y]" by (metis rev_exhaust)
  have "valid_elem y" using list_all_valid_take[OF assms, of k] t by simp
  then have nt: "?root \<noteq> ''.''" "?root \<noteq> ''/''"
    using abs_path_not_terminal[of ys y] t by (auto simp: valid_elem_def)
  have split: "abs_path es = ?root @ offset_of (drop k es)"
    using abs_path_append[OF \<open>take k es \<noteq> []\<close>, of "drop k es"] by simp
  then have "slice_from (abs_path es) (length ?root) = Some (offset_of (drop k es))"
    by (simp add: slice_from_def)
  then show "FindParentSyncthingDir fs (Some (abs_path es))
                = Some (?root, offset_of (drop k es))"
    using w nt by (simp add: FindParentSyncthingDir_abs_path[OF assms])
  show "?root @ offset_of (drop k es) = abs_path es" using split by simp
  show "?root \<noteq> ''/''" by (rule nt(2))
next
  assume "\<forall>j. 1 \<le> j \<and> j \<le> length es \<longrightarrow> \<not> has_marker fs (abs_path (take j es))"
  then have "\<forall>j. 0 < j \<and> j \<le> length es \<longrightarrow> \<not> has_marker fs (abs_path (take j es))"
    by (simp add: Suc_le_eq)
  from walk_nearest[OF assms _ this] have "walk fs (abs_path es) = ''/''"
    by (simp add: walk_root)
  then show r: "FindParentSyncthingDir fs (Some (abs_path es)) = Some ([], [])"
    by (simp add: FindParentSyncthingDir_abs_path[OF assms])
  then show "do fs (Some (abs_path es)) con args = (Inl NotInsideSyncthingFolder, fs)"
    by (rule do_not_inside)
next
  show "FindParentSyncthingDir fs None = Some ([], [])"
    by (simp add: FindParentSyncthingDir_def)
qed

theorem FindParentSyncthingDir_nearest_marker_witness:
  "FindParentSyncthingDir fs_nested (Some ''/a/b'') = Some (''/a'', ''/b'')
   \<and> FindParentSyncthingDir fs_nested (Some ''/x'') = Some ([], [])"
proof -
  have v: "list_all valid_elem [''a'', ''b'']" by code_simp
  have m1: "has_marker fs_nested (abs_path (take 1 [''a'', ''b'']))" by code_simp
  have m2: "\<not> has_marker fs_nested (abs_path (take 2 [''a'', ''b'']))" by code_simp
  have "\<forall>j. 1 < j \<and> j \<le> length [''a'', ''b'']
          \<longrightarrow> \<not> has_marker fs_nested (abs_path (take j [''a'', ''b'']))"
  proof (intro allI impI)
    fix j :: nat
    assume "1 < j \<and> j \<le> length [''a'', ''b'']"
    then have "j = 2" by simp
    with m2 show "\<not> has_marker fs_nested (abs_path (take j [''a'', ''b'']))" by simp
  qed
  with m1 have "FindParentSyncthingDir fs_nested (Some (abs_path [''a'', ''b'']))
                = Some (abs_path (take 1 [''a'', ''b'']), offset_of (drop 1 [''a'', ''b'']))"
    using FindParentSyncthingDir_nearest_marker[OF v, of 1 fs_nested] by simp
  moreover have "abs_path [''a'', ''b''] = ''/a/b''" "abs_path (take 1 [''a'', ''b'']) = ''/a''"
    "offset_of (drop 1 [''a'', ''b'']) = ''/b''"
    by code_simp+
  ultimately have found: "FindParentSyncthingDir fs_nested (Some ''/a/b'') = Some (''/a'', ''/b'')"
    by (simp only:)
  have vx: "list_all valid_elem [''x'']" by code_simp
  have mx: "\<not> has_marker fs_nested (abs_path (take 1 [''x'']))" by code_simp
  have "\<forall>j. 1 \<le> j \<and> j \<le> length [''x'']
          \<longrightarrow> \<not> has_marker fs_nested (abs_path (take j [''x'']))"
  proof (intro allI impI)
    fix j :: nat
    assume "1 \<le> j \<and> j \<le> length [''x'']"
    then have "j = 1" by simp
    with mx show "\<not> has_marker fs_nested (abs_path (take j [''x'']))" by simp
  qed
  then have "FindParentSyncthingDir fs_nested (Some (abs_path [''x''])) = Some ([], [])"
    using FindParentSyncthingDir_nearest_marker[OF vx, of 1 fs_nested] by simp
  moreover have "abs_path [''x''] = ''/x''" by code_simp
  ultimately have "FindParentSyncthingDir fs_nested (Some ''/x'') = Some ([], [])"
    by (simp only:)
  with found show ?thesis by (rule conjI)
qed

text \<open>
  Claim C8, as amended. Let the clean absolute directory \<open>abs_path es\<close> resolve to the
  root \<open>R\<close> with offset \<open>rel\<close>. Then every descendant \<open>abs_path (es @ ds)\<close> such that no
  directory on the way down to it (the descendant included) has a marker of its own
  resolves to the same root \<open>R\<close>, with the offset extended by the elements \<open>ds\<close>.
\<close>

theorem descendant_resolves_to_same_root:
  assumes "list_all valid_elem es" and "list_all valid_elem ds"
    and "FindParentSyncthingDir fs (Some (abs_path es)) = Some (R, rel)" and "R \<noteq> []"
    and "\<forall>j. 1 \<le> j \<and> j \<le> length ds \<longrightarrow> \<not> has_marker fs (abs_path (es @ take j ds))"
  shows "FindParentSyncthingDir fs (Some (abs_path (es @ ds))) = Some (R, rel @ offset_of ds)"
proof -
  let ?cur = "walk fs (abs_path es)"
  from assms(3,4) have nt: "?cur \<noteq> ''.''" "?cur \<noteq> ''/''"
    by (auto simp: FindParentSyncthingDir_abs_path[OF assms(1)] split: if_splits)
  with assms(3) have R: "R = ?cur" and sl: "slice_from (abs_path es) (length ?cur) = Some rel"
    by (auto simp: FindParentSyncthingDir_abs_path[OF assms(1)])
  from sl have len: "length ?cur \<le> length (abs_path es)"
    and rel: "rel = drop (length ?cur) (abs_path es)"
    by (auto simp: slice_from_def split: if_splits)
  have "es \<noteq> []" using nt(2) by (auto simp: walk_root)
  then have ap: "abs_path (es @ ds) = abs_path es @ offset_of ds" by (rule abs_path_append)
  have v: "list_all valid_elem (es @ ds)" using assms(1,2) by simp
  have "\<forall>j. length es < j \<and> j \<le> length (es @ ds)
          \<longrightarrow> \<not> has_marker fs (abs_path (take j (es @ ds)))"
  proof (intro allI impI)
    fix j assume j: "length es < j \<and> j \<le> length (es @ ds)"
    then have "1 \<le> j - length es \<and> j - length es \<le> length ds" by auto
    with assms(5) have "\<not> has_marker fs (abs_path (es @ take (j - length es) ds))" by blast
    then show "\<not> has_marker fs (abs_path (take j (es @ ds)))" using j by simp
  qed
  from walk_nearest[OF v _ this] have w: "walk fs (abs_path (es @ ds)) = ?cur" by simp
  have "slice_from (abs_path (es @ ds)) (length ?cur) = Some (rel @ offset_of ds)"
    using len rel by (simp add: slice_from_def ap)
  then show ?thesis using w nt R by (simp add: FindParentSyncthingDir_abs_path[OF v])
qed

theorem descendant_resolves_to_same_root_witness:
  "FindParentSyncthingDir fs_nested (Some ''/a/b/c/d/e'') = Some (''/a/b/c'', ''/d/e'')"
proof -
  have v: "list_all valid_elem [''a'', ''b'', ''c'']" "list_all valid_elem [''d'', ''e'']"
    by code_simp+
  have r: "FindParentSyncthingDir fs_nested (Some (abs_path [''a'', ''b'', ''c'']))
            = Some (''/a/b/c'', [])"
    by code_simp
  have m: "\<not> has_marker fs_nested (abs_path ([''a'', ''b'', ''c''] @ take 1 [''d'', ''e'']))"
    "\<not> has_marker fs_nested (abs_path ([''a'', ''b'', ''c''] @ take 2 [''d'', ''e'']))"
    by code_simp+
  have "\<forall>j. 1 \<le> j \<and> j \<le> length [''d'', ''e'']
          \<longrightarrow> \<not> has_marker fs_nested (abs_path ([''a'', ''b'', ''c''] @ take j [''d'', ''e'']))"
  proof (intro allI impI)
    fix j :: nat
    assume "1 \<le> j \<and> j \<le> length [''d'', ''e'']"
    then have "j = 1 \<or> j = 2" by auto
    with m show "\<not> has_marker fs_nested (abs_path ([''a'', ''b'', ''c''] @ take j [''d'', ''e'']))"
      by auto
  qed
  from descendant_resolves_to_same_root[OF v r _ this]
  have "FindParentSyncthingDir fs_nested (Some (abs_path ([''a'', ''b'', ''c''] @ [''d'', ''e''])))
          = Some (''/a/b/c'', [] @ offset_of [''d'', ''e''])"
    by simp
  moreover have "abs_path ([''a'', ''b'', ''c''] @ [''d'', ''e'']) = ''/a/b/c/d/e''"
    "[] @ offset_of [''d'', ''e''] = ''/d/e''"
    by code_simp+
  ultimately show ?thesis by (simp only:)
qed

text \<open>
  Claim C8 as stated fails when a descendant has a marker of its own: in \<open>fs_nested\<close> the
  directory \<open>/a/b\<close> resolves to the root \<open>/a\<close>, and its descendant \<open>/a/b/c\<close> resolves to
  \<open>/a/b/c\<close>.
\<close>

theorem nested_root_wins:
  "FindParentSyncthingDir fs_nested (Some ''/a/b'') = Some (''/a'', ''/b'')
   \<and> FindParentSyncthingDir fs_nested (Some ''/a/b/c'') = Some (''/a/b/c'', [])"
  by code_simp

section \<open>The two ignore files are different files\<close>

lemma last_elem_append:
  assumes "CHR ''/'' \<notin> set e" and "pre = [] \<or> last pre = CHR ''/''"
  shows "last_elem (pre @ e) = e"
proof -
  have "takeWhile (\<lambda>c. c \<noteq> CHR ''/'') (rev pre) = []"
    using assms(2) by (cases pre rule: rev_cases) auto
  moreover have "\<And>c. c \<in> set (rev e) \<Longrightarrow> c \<noteq> CHR ''/''" using assms(1) by auto
  ultimately have "takeWhile (\<lambda>c. c \<noteq> CHR ''/'') (rev e @ rev pre) = rev e"
    using takeWhile_append2[of "rev e" "\<lambda>c. c \<noteq> CHR ''/''" "rev pre"] by simp
  then show ?thesis by (simp add: last_elem_def)
qed

lemma Clean_ends_with_elem:
  assumes "valid_elem e"
  shows "\<exists>pre. Clean (d @ CHR ''/'' # e) = pre @ e \<and> (pre = [] \<or> last pre = CHR ''/'')"
proof -
  define r where "r = (hd (d @ CHR ''/'' # e) = CHR ''/'')"
  define ces where "ces = clean_elems r [] (split_sep d)"
  have sl: "CHR ''/'' \<notin> set e" "e \<noteq> []" using assms by (simp_all add: valid_elem_def)
  have "split_sep (d @ CHR ''/'' # e) = split_sep d @ [e]"
    using sl by (simp add: split_sep_append_sep split_sep_no_sep)
  then have ce: "clean_elems r [] (split_sep (d @ CHR ''/'' # e)) = ces @ [e]"
    using assms by (simp add: ces_def clean_elems_snoc_valid)
  define pre where "pre = (if r then ''/'' else []) @ (if ces = [] then [] else join_sep ces @ ''/'')"
  have j: "join_sep (ces @ [e]) = (if ces = [] then [] else join_sep ces @ ''/'') @ e"
    by (cases "ces = []") (simp_all add: join_sep_append offset_of_def)
  have "(if r then ''/'' else []) @ join_sep (ces @ [e]) = pre @ e"
    by (simp add: pre_def j)
  moreover have "pre @ e \<noteq> []" using sl by simp
  ultimately have "Clean (d @ CHR ''/'' # e) = pre @ e"
    unfolding Clean_def Let_def r_def[symmetric] ce by simp
  moreover have "pre = [] \<or> last pre = CHR ''/''" by (auto simp: pre_def)
  ultimately show ?thesis by blast
qed

lemma Clean_valid_elem: "valid_elem e \<Longrightarrow> Clean e = e"
proof -
  assume v: "valid_elem e"
  then have "e \<noteq> []" "split_sep e = [e]"
    by (auto simp: valid_elem_def split_sep_no_sep)
  moreover have "hd e \<noteq> CHR ''/''"
    using v by (cases e) (auto simp: valid_elem_def)
  moreover have "clean_elems False [] [e] = [e]" using v by (auto simp: valid_elem_def)
  ultimately show ?thesis by (simp add: Clean_def)
qed

lemma last_elem_Join:
  assumes "valid_elem e"
  shows "last_elem (Join [d, e]) = e"
proof (cases "d = []")
  case True
  have "CHR ''/'' \<notin> set e" "e \<noteq> []" using assms by (simp_all add: valid_elem_def)
  then show ?thesis
    using True last_elem_append[of e "[]"] by (simp add: Clean_valid_elem[OF assms])
next
  case False
  obtain pre where "Clean (d @ CHR ''/'' # e) = pre @ e" "pre = [] \<or> last pre = CHR ''/''"
    using Clean_ends_with_elem[OF assms] by blast
  moreover have "CHR ''/'' \<notin> set e" using assms by (simp add: valid_elem_def)
  ultimately show ?thesis using False by (simp add: last_elem_append)
qed

lemma Join_neq:
  assumes "valid_elem e" and "valid_elem e'" and "e \<noteq> e'"
  shows "Join [d, e] \<noteq> Join [d', e']"
  using last_elem_Join[OF assms(1), of d] last_elem_Join[OF assms(2), of d'] assms(3) by auto

lemma primary_neq_secondary: "Join [d, ignoreF] \<noteq> Join [d, ignoreSyncF]"
  by (rule Join_neq) (simp_all add: valid_elem_def ignoreF_def ignoreSyncF_def)

lemma marker_neq_ignore:
  "Join [d, ''.stfolder''] \<noteq> Join [d', ignoreF]" "Join [d, ''.stfolder''] \<noteq> Join [d', ignoreSyncF]"
  by (rule Join_neq; simp add: valid_elem_def ignoreF_def ignoreSyncF_def)+

section \<open>The effect of the operations on the files\<close>

declare Join.simps [simp del]

lemma Append_result:
  assumes "fname f = p"
  shows "Append fs f toAppend = fs(p \<mapsto> File (appended (file_content fs p) toAppend))"
proof -
  have c: "content fs f = file_content fs p"
    using assms by (simp add: content_def file_content_def)
  have "EndsWithNewLine fs (f\<lparr>offset := length (content fs f)\<rparr>) = ends_with_newline (file_content fs p)"
    using assms
    by (simp add: EndsWithNewLine_def Let_def ends_with_newline_def content_def file_content_def)
  then show ?thesis
    using assms c by (simp add: Append_def Write_def Let_def appended_def content_def)
qed

lemma OpenAndAppend_result:
  assumes "fs p \<noteq> Some Directory"
  shows "OpenAndAppend fs p toAppend = (None, fs(p \<mapsto> File (appended (file_content fs p) toAppend)))"
proof (cases "fs p")
  case None
  then have "OpenFile fs p = Inr (fs(p \<mapsto> File []), \<lparr>fname = p, offset = 0\<rparr>)"
    by (simp add: OpenFile_def)
  moreover have "file_content fs p = []" "file_content (fs(p \<mapsto> File [])) p = []"
    using None by (simp_all add: file_content_def)
  ultimately show ?thesis by (simp add: OpenAndAppend_def Append_result)
next
  case (Some n)
  with assms obtain c where c: "fs p = Some (File c)" by (cases n) auto
  then have "OpenFile fs p = Inr (fs, \<lparr>fname = p, offset = 0\<rparr>)" by (simp add: OpenFile_def)
  then show ?thesis by (simp add: OpenAndAppend_def Append_result)
qed

lemma OpenAndAppend_directory:
  "fs p = Some Directory \<Longrightarrow> OpenAndAppend fs p toAppend = (Some (FileError p (PathError p)), fs)"
  by (simp add: OpenAndAppend_def OpenFile_def)

lemma scan_lines_Nil: "\<not> scan_lines []"
proof -
  have "ReadString [] = ([], [], True)" by (simp add: ReadString_def)
  moreover have "TrimSpace [] = []" by (simp add: TrimSpace_def)
  moreover have "FindStringSubmatch [] = None" by (simp add: FindStringSubmatch_None_iff)
  ultimately show ?thesis by (subst scan_lines.simps) (simp add: HasPrefix_def)
qed

lemma linked_is_file:
  "scan_lines (file_content fs p) \<Longrightarrow> \<exists>c. fs p = Some (File c)"
  using scan_lines_Nil by (auto simp: file_content_def split: option.splits node.splits)

lemma directive_text: "includeDirective @ ignoreSyncF @ [newline] = ''#include .stignore_sync'' @ [newline]"
  by (simp add: includeDirective_def ignoreSyncF_def)

lemma WriteToSynced_linked:
  assumes "scan_lines (file_content fs (Join [stDir, ignoreF]))"
    and "fs (Join [stDir, ignoreSyncF]) \<noteq> Some Directory"
  shows "WriteToSynced fs con pats stDir sp =
           (None, fs(Join [stDir, ignoreSyncF] \<mapsto>
                    File (appended (file_content fs (Join [stDir, ignoreSyncF])) pats)))"
proof -
  let ?P = "Join [stDir, ignoreF]"
  obtain c where c: "fs ?P = Some (File c)" using linked_is_file[OF assms(1)] by blast
  then have o: "OpenFile fs ?P = Inr (fs, \<lparr>fname = ?P, offset = 0\<rparr>)" by (simp add: OpenFile_def)
  have "content fs \<lparr>fname = ?P, offset = 0\<rparr> = file_content fs ?P"
    by (simp add: content_def file_content_def)
  then have l: "scan_lines (content fs \<lparr>fname = ?P, offset = 0\<rparr>)" using assms(1) by simp
  show ?thesis
    unfolding WriteToSynced_def Let_def o
    using l OpenAndAppend_result[of fs "Join [stDir, ignoreSyncF]" pats] assms(2) by simp
qed

lemma WriteToSynced_unlinked_no_prompt:
  assumes "\<not> scan_lines (file_content fs (Join [stDir, ignoreF]))"
    and "fs (Join [stDir, ignoreF]) \<noteq> Some Directory"
    and "fs (Join [stDir, ignoreSyncF]) \<noteq> Some Directory"
  shows "WriteToSynced fs con pats stDir False =
           (None, fs(Join [stDir, ignoreSyncF] \<mapsto>
                       File (appended (file_content fs (Join [stDir, ignoreSyncF])) pats),
                     Join [stDir, ignoreF] \<mapsto>
                       File (with_directive (file_content fs (Join [stDir, ignoreF])))))"
proof -
  let ?P = "Join [stDir, ignoreF]" and ?S = "Join [stDir, ignoreSyncF]"
  let ?f = "\<lparr>fname = ?P, offset = 0\<rparr>"
  define fs1 where "fs1 = (if fs ?P = None then fs(?P \<mapsto> File []) else fs)"
  have ne: "?P \<noteq> ?S" by (rule primary_neq_secondary)
  have o: "OpenFile fs ?P = Inr (fs1, ?f)"
    using assms(2) by (auto simp: OpenFile_def fs1_def split: option.splits node.splits)
  have c1: "content fs1 ?f = file_content fs ?P"
    by (auto simp: content_def file_content_def fs1_def)
  have s1: "fs1 ?S \<noteq> Some Directory" "file_content fs1 ?S = file_content fs ?S"
    using assms(3) ne by (auto simp: fs1_def file_content_def)
  let ?fs2 = "fs1(?S \<mapsto> File (appended (file_content fs ?S) pats))"
  have oa: "OpenAndAppend fs1 ?S pats = (None, ?fs2)"
    using OpenAndAppend_result[of fs1 ?S pats] s1 by simp
  let ?g = "\<lparr>fname = ?P, offset = length (file_content fs ?P)\<rparr>"
  have c2: "content ?fs2 ?g = file_content fs ?P"
    using ne c1 by (simp add: content_def)
  have e2: "EndsWithNewLine ?fs2 ?g = ends_with_newline (file_content fs ?P)"
    by (simp only: EndsWithNewLine_def Let_def c2 ends_with_newline_def)
  have w: "fst (Write ?fs2 ?g data) = ?fs2(?P \<mapsto> File (file_content fs ?P @ data))" for data
    by (simp only: Write_def Let_def c2 fst_conv) simp
  have upd: "?fs2(?P \<mapsto> x) = fs(?S \<mapsto> File (appended (file_content fs ?S) pats), ?P \<mapsto> x)" for x
    using ne by (auto simp: fs1_def fun_upd_twist)
  show ?thesis
    unfolding WriteToSynced_def Let_def o
    using assms(1)
    by (simp add: c1 oa e2 w upd with_directive_def directive_text del: fun_upd_apply)
qed

lemma do_found:
  assumes "FindParentSyncthingDir fs wd = Some (stDir, relPath)" and "stDir \<noteq> []"
    and "(if \<not> Absolute args then rewrite_patterns relPath (Patterns args)
          else Inr (Patterns args)) = Inr pats"
  shows "do fs wd con args =
           (if Synced args \<or> (\<not> Local args \<and> is_regular fs (Join [stDir, ignoreSyncF])) then
              (case WriteToSynced fs con pats stDir (\<not> Local args \<and> \<not> Synced args) of
                 (Some e, fs') \<Rightarrow> (Inl e, fs')
               | (None, fs') \<Rightarrow> (Inr stDir, fs'))
            else
              (case OpenAndAppend fs (Join [stDir, ignoreF]) pats of
                 (Some e, fs') \<Rightarrow> (Inl e, fs')
               | (None, fs') \<Rightarrow> (Inr stDir, fs')))"
proof (cases "Absolute args")
  case True
  with assms(3) have "Patterns args = pats" by simp
  with True assms(1,2) show ?thesis by (auto simp: do_def)
next
  case False
  with assms(3) have "rewrite_patterns relPath (Patterns args) = Inr pats" by simp
  with False assms(1,2) show ?thesis by (auto simp: do_def)
qed

lemma walk_cong:
  assumes "\<And>d. fs' (Join [d, ''.stfolder'']) = fs (Join [d, ''.stfolder''])"
  shows "walk fs' cur = walk fs cur"
  using assms
proof (induction fs cur rule: walk.induct)
  case (1 fs cur)
  show ?case
  proof (cases "cur \<noteq> ''.'' \<and> cur \<noteq> ''/''")
    case False
    then show ?thesis by (auto simp: walk.simps)
  next
    case True
    show ?thesis
    proof (cases "fs (Join [cur, ''.stfolder''])")
      case None
      with True "1.IH"(1) "1.prems" show ?thesis
        by (subst (1 2) walk.simps) simp
    next
      case (Some n)
      show ?thesis
      proof (cases n)
        case (File c)
        with Some True "1.IH"(2) "1.prems" show ?thesis
          by (subst (1 2) walk.simps) simp
      next
        case Directory
        with Some True "1.prems" show ?thesis
          by (subst (1 2) walk.simps) simp
      qed
    qed
  qed
qed

lemma FindParentSyncthingDir_cong:
  assumes "\<And>d. fs' (Join [d, ''.stfolder'']) = fs (Join [d, ''.stfolder''])"
  shows "FindParentSyncthingDir fs' wd = FindParentSyncthingDir fs wd"
proof -
  have "walk fs' = walk fs" by (rule ext) (rule walk_cong[of fs' fs], rule assms)
  then show ?thesis unfolding FindParentSyncthingDir_def by (simp only:)
qed

lemma FindParentSyncthingDir_upd_secondary:
  "FindParentSyncthingDir (fs(Join [d, ignoreSyncF] \<mapsto> x)) wd = FindParentSyncthingDir fs wd"
  by (rule FindParentSyncthingDir_cong) (simp add: marker_neq_ignore)

section \<open>A forced target\<close>

text \<open>
  Claim C4, as amended. Inside a synchronized folder, when the caller forces a target
  and the ignore files can be opened: with \<open>--local\<close> alone the patterns are appended to
  the primary file and nothing else changes; with \<open>--synced\<close> the patterns are appended
  to the secondary file and, when the primary file does not hold the inclusion
  directive yet, the directive is appended to the primary file. Neither case reads the
  standard input: the result does not depend on it.
\<close>

theorem forced_target:
  assumes "FindParentSyncthingDir fs wd = Some (stDir, relPath)" and "stDir \<noteq> []"
    and "(if \<not> Absolute args then rewrite_patterns relPath (Patterns args)
          else Inr (Patterns args)) = Inr pats"
    and "Local args \<or> Synced args"
  shows "(\<not> Synced args \<and> fs (Join [stDir, ignoreF]) \<noteq> Some Directory \<longrightarrow>
            do fs wd con args =
              (Inr stDir,
               fs(Join [stDir, ignoreF] \<mapsto>
                    File (appended (file_content fs (Join [stDir, ignoreF])) pats))))
       \<and> (Synced args \<and> fs (Join [stDir, ignoreF]) \<noteq> Some Directory
            \<and> fs (Join [stDir, ignoreSyncF]) \<noteq> Some Directory \<longrightarrow>
            do fs wd con args =
              (Inr stDir,
               if scan_lines (file_content fs (Join [stDir, ignoreF]))
               then fs(Join [stDir, ignoreSyncF] \<mapsto>
                         File (appended (file_content fs (Join [stDir, ignoreSyncF])) pats))
               else fs(Join [stDir, ignoreSyncF] \<mapsto>
                         File (appended (file_content fs (Join [stDir, ignoreSyncF])) pats),
                       Join [stDir, ignoreF] \<mapsto>
                         File (with_directive (file_content fs (Join [stDir, ignoreF]))))))"
proof (intro conjI impI)
  assume a: "\<not> Synced args \<and> fs (Join [stDir, ignoreF]) \<noteq> Some Directory"
  with assms(4) have "Local args" by simp
  with a show "do fs wd con args =
              (Inr stDir,
               fs(Join [stDir, ignoreF] \<mapsto>
                    File (appended (file_content fs (Join [stDir, ignoreF])) pats)))"
    using OpenAndAppend_result[of fs "Join [stDir, ignoreF]" pats]
    by (simp add: do_found[OF assms(1,2,3)])
next
  assume a: "Synced args \<and> fs (Join [stDir, ignoreF]) \<noteq> Some Directory
            \<and> fs (Join [stDir, ignoreSyncF]) \<noteq> Some Directory"
  show "do fs wd con args =
              (Inr stDir,
               if scan_lines (file_content fs (Join [stDir, ignoreF]))
               then fs(Join [stDir, ignoreSyncF] \<mapsto>
                         File (appended (file_content fs (Join [stDir, ignoreSyncF])) pats))
               else fs(Join [stDir, ignoreSyncF] \<mapsto>
                         File (appended (file_content fs (Join [stDir, ignoreSyncF])) pats),
                       Join [stDir, ignoreF] \<mapsto>
                         File (with_directive (file_content fs (Join [stDir, ignoreF])))))"
  proof (cases "scan_lines (file_content fs (Join [stDir, ignoreF]))")
    case True
    from WriteToSynced_linked[OF True, of con pats False] a True show ?thesis
      by (simp add: do_found[OF assms(1,2,3)])
  next
    case False
    from WriteToSynced_unlinked_no_prompt[OF False, of con pats] a False show ?thesis
      by (simp add: do_found[OF assms(1,2,3)])
  qed
qed

theorem forced_target_witness:
  "do fs_unlinked (Some ''/root/some/path'') no_input
      \<lparr>Local = True, Synced = False, Absolute = False, Patterns = [''*.png'']\<rparr>
     = (Inr ''/root'',
        fs_unlinked(''/root/.stignore'' \<mapsto>
          File (''*.bak'' @ [newline] @ ''/some/path/*.png'' @ [newline])))
   \<and> do fs_unlinked (Some ''/root/some/path'') no_input
      \<lparr>Local = False, Synced = True, Absolute = False, Patterns = [''*.png'']\<rparr>
     = (Inr ''/root'',
        fs_unlinked(''/root/.stignore_sync'' \<mapsto>
            File (''*.tmp'' @ [newline] @ ''/some/path/*.png'' @ [newline]),
          ''/root/.stignore'' \<mapsto>
            File (''*.bak'' @ [newline] @ ''#include .stignore_sync'' @ [newline])))"
proof -
  let ?l = "\<lparr>Local = True, Synced = False, Absolute = False, Patterns = [''*.png'']\<rparr>"
  let ?s = "\<lparr>Local = False, Synced = True, Absolute = False, Patterns = [''*.png'']\<rparr>"
  have root: "FindParentSyncthingDir fs_unlinked (Some ''/root/some/path'')
                = Some (''/root'', ''/some/path'')" "''/root'' \<noteq> []"
    by code_simp+
  have pl: "(if \<not> Absolute ?l then rewrite_patterns ''/some/path'' (Patterns ?l)
             else Inr (Patterns ?l)) = Inr [''/some/path/*.png'']"
    and ps: "(if \<not> Absolute ?s then rewrite_patterns ''/some/path'' (Patterns ?s)
             else Inr (Patterns ?s)) = Inr [''/some/path/*.png'']"
    by code_simp+
  have j: "Join [''/root'', ignoreF] = ''/root/.stignore''"
    "Join [''/root'', ignoreSyncF] = ''/root/.stignore_sync''"
    by code_simp+
  have f: "fs_unlinked ''/root/.stignore'' \<noteq> Some Directory"
    "fs_unlinked ''/root/.stignore_sync'' \<noteq> Some Directory"
    "\<not> scan_lines (file_content fs_unlinked ''/root/.stignore'')"
    by code_simp+
  have c: "appended (file_content fs_unlinked ''/root/.stignore'') [''/some/path/*.png'']
             = ''*.bak'' @ [newline] @ ''/some/path/*.png'' @ [newline]"
    "appended (file_content fs_unlinked ''/root/.stignore_sync'') [''/some/path/*.png'']
             = ''*.tmp'' @ [newline] @ ''/some/path/*.png'' @ [newline]"
    "with_directive (file_content fs_unlinked ''/root/.stignore'')
             = ''*.bak'' @ [newline] @ ''#include .stignore_sync'' @ [newline]"
    by code_simp+
  have "do fs_unlinked (Some ''/root/some/path'') no_input ?l
     = (Inr ''/root'',
        fs_unlinked(''/root/.stignore'' \<mapsto>
          File (''*.bak'' @ [newline] @ ''/some/path/*.png'' @ [newline])))"
    using forced_target[OF root pl, of no_input] f unfolding j c by simp
  moreover have "do fs_unlinked (Some ''/root/some/path'') no_input ?s
     = (Inr ''/root'',
        fs_unlinked(''/root/.stignore_sync'' \<mapsto>
            File (''*.tmp'' @ [newline] @ ''/some/path/*.png'' @ [newline]),
          ''/root/.stignore'' \<mapsto>
            File (''*.bak'' @ [newline] @ ''#include .stignore_sync'' @ [newline])))"
    using forced_target[OF root ps, of no_input] f unfolding j c by simp
  ultimately show ?thesis by (rule conjI)
qed

text \<open>
  Claim C4 as stated fails for \<open>--synced\<close>: on a primary file that does not include the
  secondary file, \<open>do\<close> with \<open>--synced\<close> appends the inclusion directive to the primary
  file.
\<close>

theorem forced_synced_inserts_directive:
  "fst (do fs_unlinked (Some ''/root'') no_input
      \<lparr>Local = False, Synced = True, Absolute = True, Patterns = [''*.png'']\<rparr>) = Inr ''/root''
   \<and> snd (do fs_unlinked (Some ''/root'') no_input
      \<lparr>Local = False, Synced = True, Absolute = True, Patterns = [''*.png'']\<rparr>) ''/root/.stignore''
     = Some (File (''*.bak'' @ [newline] @ ''#include .stignore_sync'' @ [newline]))"
  by code_simp

section \<open>A linked configuration\<close>

text \<open>
  Claim C6, as amended. Inside a synchronized folder whose primary file holds the
  inclusion directive, every invocation that writes to the synced target (forced with
  \<open>--synced\<close>, or by auto-detection when the secondary file exists as a regular file)
  appends the patterns to the secondary file and changes nothing else: the primary
  file is as it was. Running \<open>do\<close> again on the result, with the same arguments, appends
  to the secondary file again and to nothing else.
\<close>

theorem linked_appends_to_secondary_only:
  assumes "FindParentSyncthingDir fs wd = Some (stDir, relPath)" and "stDir \<noteq> []"
    and "(if \<not> Absolute args then rewrite_patterns relPath (Patterns args)
          else Inr (Patterns args)) = Inr pats"
    and "scan_lines (file_content fs (Join [stDir, ignoreF]))"
    and "fs (Join [stDir, ignoreSyncF]) \<noteq> Some Directory"
    and "Synced args \<or> (\<not> Local args \<and> is_regular fs (Join [stDir, ignoreSyncF]))"
  shows "do fs wd con args =
           (Inr stDir,
            fs(Join [stDir, ignoreSyncF] \<mapsto>
                 File (appended (file_content fs (Join [stDir, ignoreSyncF])) pats)))
       \<and> (fs(Join [stDir, ignoreSyncF] \<mapsto>
                 File (appended (file_content fs (Join [stDir, ignoreSyncF])) pats)))
            (Join [stDir, ignoreF]) = fs (Join [stDir, ignoreF])
       \<and> do (fs(Join [stDir, ignoreSyncF] \<mapsto>
                   File (appended (file_content fs (Join [stDir, ignoreSyncF])) pats)))
             wd con args =
           (Inr stDir,
            fs(Join [stDir, ignoreSyncF] \<mapsto>
                 File (appended (appended (file_content fs (Join [stDir, ignoreSyncF])) pats)
                         pats)))"
proof -
  let ?P = "Join [stDir, ignoreF]" and ?S = "Join [stDir, ignoreSyncF]"
  let ?X = "appended (file_content fs ?S) pats"
  let ?fs' = "fs(?S \<mapsto> File ?X)"
  have ne: "?P \<noteq> ?S" by (rule primary_neq_secondary)
  have run: "do fs0 wd con args = (Inr stDir, fs0(?S \<mapsto> File (appended (file_content fs0 ?S) pats)))"
    if "FindParentSyncthingDir fs0 wd = Some (stDir, relPath)"
      and "scan_lines (file_content fs0 ?P)" and "fs0 ?S \<noteq> Some Directory"
      and "Synced args \<or> (\<not> Local args \<and> is_regular fs0 ?S)" for fs0
    using WriteToSynced_linked[OF that(2,3), of con pats "\<not> Local args \<and> \<not> Synced args"] that(4)
    by (simp add: do_found[OF that(1) assms(2,3)])
  have 1: "do fs wd con args = (Inr stDir, ?fs')"
    using run[OF assms(1,4,5,6)] .
  have 2: "?fs' ?P = fs ?P" using ne by simp
  have "FindParentSyncthingDir ?fs' wd = Some (stDir, relPath)"
    using assms(1) by (simp only: FindParentSyncthingDir_upd_secondary)
  moreover have "scan_lines (file_content ?fs' ?P)"
    using assms(4) ne by (simp add: file_content_def)
  moreover have "?fs' ?S \<noteq> Some Directory" by simp
  moreover have "Synced args \<or> (\<not> Local args \<and> is_regular ?fs' ?S)"
    using assms(6) by (auto simp: is_regular_def)
  ultimately have "do ?fs' wd con args
      = (Inr stDir, ?fs'(?S \<mapsto> File (appended (file_content ?fs' ?S) pats)))"
    by (rule run)
  then have 3: "do ?fs' wd con args = (Inr stDir, fs(?S \<mapsto> File (appended ?X pats)))"
    by (simp add: file_content_def)
  from 1 2 3 show ?thesis by (simp only:)
qed

theorem linked_appends_to_secondary_only_witness:
  "do fs_linked (Some ''/root'') no_input
      \<lparr>Local = False, Synced = False, Absolute = True, Patterns = [''*.png'']\<rparr>
     = (Inr ''/root'',
        fs_linked(''/root/.stignore_sync'' \<mapsto>
          File (''*.tmp'' @ [newline] @ ''*.png'' @ [newline])))
   \<and> do (fs_linked(''/root/.stignore_sync'' \<mapsto>
          File (''*.tmp'' @ [newline] @ ''*.png'' @ [newline]))) (Some ''/root'') no_input
      \<lparr>Local = False, Synced = False, Absolute = True, Patterns = [''*.png'']\<rparr>
     = (Inr ''/root'',
        fs_linked(''/root/.stignore_sync'' \<mapsto>
          File (''*.tmp'' @ [newline] @ ''*.png'' @ [newline] @ ''*.png'' @ [newline])))"
proof -
  let ?a = "\<lparr>Local = False, Synced = False, Absolute = True, Patterns = [''*.png'']\<rparr>"
  have root: "FindParentSyncthingDir fs_linked (Some ''/root'') = Some (''/root'', [])"
    "''/root'' \<noteq> []"
    by code_simp+
  have pa: "(if \<not> Absolute ?a then rewrite_patterns [] (Patterns ?a)
             else Inr (Patterns ?a)) = Inr [''*.png'']"
    by code_simp
  have j: "Join [''/root'', ignoreF] = ''/root/.stignore''"
    "Join [''/root'', ignoreSyncF] = ''/root/.stignore_sync''"
    by code_simp+
  have f: "scan_lines (file_content fs_linked ''/root/.stignore'')"
    "fs_linked ''/root/.stignore_sync'' \<noteq> Some Directory"
    "Synced ?a \<or> (\<not> Local ?a \<and> is_regular fs_linked ''/root/.stignore_sync'')"
    by code_simp+
  have c: "appended (file_content fs_linked ''/root/.stignore_sync'') [''*.png'']
             = ''*.tmp'' @ [newline] @ ''*.png'' @ [newline]"
    "appended (''*.tmp'' @ [newline] @ ''*.png'' @ [newline]) [''*.png'']
             = ''*.tmp'' @ [newline] @ ''*.png'' @ [newline] @ ''*.png'' @ [newline]"
    by code_simp+
  from linked_appends_to_secondary_only[OF root pa, of no_input, unfolded j, OF f]
  show ?thesis unfolding c by simp
qed

text \<open>
  Claim C6 as stated fails for an invocation that does not write to the synced target:
  with the directive in the primary file and no secondary file, auto-detection chooses
  the primary file and appends the patterns to it; and with the directive in the
  primary file and the secondary file in place, \<open>--local\<close> appends the patterns to the
  primary file and leaves the secondary file as it was.
\<close>

theorem linked_without_secondary_appends_to_primary:
  "scan_lines (file_content fs_linked_alone ''/root/.stignore'')
   \<and> fst (do fs_linked_alone (Some ''/root'') no_input
      \<lparr>Local = False, Synced = False, Absolute = True, Patterns = [''*.png'']\<rparr>) = Inr ''/root''
   \<and> snd (do fs_linked_alone (Some ''/root'') no_input
      \<lparr>Local = False, Synced = False, Absolute = True, Patterns = [''*.png'']\<rparr>) ''/root/.stignore''
     = Some (File (''#include .stignore_sync'' @ [newline] @ ''*.png'' @ [newline]))
   \<and> snd (do fs_linked_alone (Some ''/root'') no_input
      \<lparr>Local = False, Synced = False, Absolute = True, Patterns = [''*.png'']\<rparr>) ''/root/.stignore_sync''
     = None
   \<and> scan_lines (file_content fs_linked ''/root/.stignore'')
   \<and> snd (do fs_linked (Some ''/root'') no_input
      \<lparr>Local = True, Synced = False, Absolute = True, Patterns = [''*.png'']\<rparr>) ''/root/.stignore''
     = Some (File (''#include .stignore_sync'' @ [newline] @ ''*.png'' @ [newline]))
   \<and> snd (do fs_linked (Some ''/root'') no_input
      \<lparr>Local = True, Synced = False, Absolute = True, Patterns = [''*.png'']\<rparr>) ''/root/.stignore_sync''
     = Some (File (''*.tmp'' @ [newline]))"
  by code_simp

section \<open>Appending and prompting at concrete inputs\<close>

text \<open>
  Claim C1 at the input of two patterns: \<open>Append\<close> writes the strings of the list one
  after the other with no newline between them, so \<open>*.png\<close> and \<open>*.jpg\<close> end up on one
  line, \<open>*.png*.jpg\<close>. The file here ends with a newline, so no newline is written before
  them, and one newline is written after them.
\<close>

theorem two_patterns_on_one_line:
  "OpenAndAppend fs_unlinked ''/root/.stignore'' [''*.png'', ''*.jpg'']
     = (None, fs_unlinked(''/root/.stignore'' \<mapsto>
                File (''*.bak'' @ [newline] @ ''*.png*.jpg'' @ [newline])))"
proof -
  have "fs_unlinked ''/root/.stignore'' \<noteq> Some Directory" by code_simp
  moreover have "appended (file_content fs_unlinked ''/root/.stignore'') [''*.png'', ''*.jpg'']
      = ''*.bak'' @ [newline] @ ''*.png*.jpg'' @ [newline]"
    by code_simp
  ultimately show ?thesis
    using OpenAndAppend_result[of fs_unlinked "''/root/.stignore''" "[''*.png'', ''*.jpg'']"]
    by simp
qed

text \<open>
  Claim C3 at the input \<open>n\<close>: \<open>Prompt\<close> returns true for every trimmed input of at most one
  character, so the answer \<open>n\<close> counts as yes, after one prompt; the answer \<open>no\<close> is a no.
  After the answer \<open>n\<close>, \<open>do\<close> appends the pattern to the secondary file and the inclusion
  directive to the primary file.
\<close>

theorem single_n_answers_yes:
  "fst (Prompt \<lparr>input = ''n'' @ [newline], broken = False\<rparr>) = Inr True
   \<and> length (snd (Prompt \<lparr>input = ''n'' @ [newline], broken = False\<rparr>)) = 1
   \<and> fst (Prompt \<lparr>input = ''no'' @ [newline], broken = False\<rparr>) = Inr False
   \<and> fst (do fs_unlinked (Some ''/root'') \<lparr>input = ''n'' @ [newline], broken = False\<rparr>
        \<lparr>Local = False, Synced = False, Absolute = True, Patterns = [''*.png'']\<rparr>) = Inr ''/root''
   \<and> snd (do fs_unlinked (Some ''/root'') \<lparr>input = ''n'' @ [newline], broken = False\<rparr>
        \<lparr>Local = False, Synced = False, Absolute = True, Patterns = [''*.png'']\<rparr>)
        ''/root/.stignore''
      = Some (File (''*.bak'' @ [newline] @ ''#include .stignore_sync'' @ [newline]))
   \<and> snd (do fs_unlinked (Some ''/root'') \<lparr>input = ''n'' @ [newline], broken = False\<rparr>
        \<lparr>Local = False, Synced = False, Absolute = True, Patterns = [''*.png'']\<rparr>)
        ''/root/.stignore_sync''
      = Some (File (''*.tmp'' @ [newline] @ ''*.png'' @ [newline]))"
  by code_simp

end
